theory Spec2Isabelle
  imports Main
begin

section \<open>Strings of the key extractor\<close>

text \<open>
  A JavaScript string is a sequence of UTF-16 code units. The development models a string as
  a \<^typ>\<open>string\<close> whose characters are the code units 0 to 255; every pattern, delimiter
  and keyword of \<^verbatim>\<open>keyExtractor.ts\<close> and \<^verbatim>\<open>fileUtils.ts\<close> lies in that range.
\<close>

definition isWhiteSpace :: "char \<Rightarrow> bool" where
  \<comment> \<open>what \<^verbatim>\<open>String.prototype.trim\<close> strips: TAB, LF, VT, FF, CR, SP, NBSP\<close>
  "isWhiteSpace c =
     (c = CHR 0x09 \<or> c = CHR 0x0A \<or> c = CHR 0x0B \<or> c = CHR 0x0C \<or> c = CHR 0x0D \<or>
      c = CHR 0x20 \<or> c = CHR 0xA0)"

definition isLineTerminator :: "char \<Rightarrow> bool" where
  \<comment> \<open>what \<^verbatim>\<open>.\<close> of a regular expression does not match: LF, CR\<close>
  "isLineTerminator c = (c = CHR 0x0A \<or> c = CHR 0x0D)"

definition trim :: "string \<Rightarrow> string" where
  "trim s = rev (dropWhile isWhiteSpace (rev (dropWhile isWhiteSpace s)))"

definition startsWith :: "string \<Rightarrow> string \<Rightarrow> bool" where
  "startsWith s p = (take (length p) s = p)"

definition endsWith :: "string \<Rightarrow> string \<Rightarrow> bool" where
  "endsWith s p = (length p \<le> length s \<and> drop (length s - length p) s = p)"

definition substring :: "string \<Rightarrow> nat \<Rightarrow> nat \<Rightarrow> string" where
  \<comment> \<open>\<^verbatim>\<open>s.substring(a, b)\<close>: the two indices are swapped when \<^verbatim>\<open>a > b\<close>\<close>
  "substring s a b = take (max a b - min a b) (drop (min a b) s)"

definition includes' :: "string \<Rightarrow> char \<Rightarrow> bool" where
  "includes' s c = (c \<in> set s)"

definition toLowerCaseChar :: "char \<Rightarrow> char" where
  \<comment> \<open>A-Z and the capital letters 0xC0-0xDE (0xD7, the multiplication sign, apart)\<close>
  "toLowerCaseChar c =
     (let n = (of_char c :: nat) in
      if (65 \<le> n \<and> n \<le> 90) \<or> (192 \<le> n \<and> n \<le> 222 \<and> n \<noteq> 215)
      then char_of (n + 32) else c)"

definition toLowerCase :: "string \<Rightarrow> string" where
  "toLowerCase s = map toLowerCaseChar s"

subsection \<open>Regular expressions of the source\<close>

definition upperASCII :: "char \<Rightarrow> char" where
  "upperASCII c =
     (let n = (of_char c :: nat) in if 97 \<le> n \<and> n \<le> 122 then char_of (n - 32) else c)"

definition matches_i :: "char \<Rightarrow> char \<Rightarrow> bool" where
  \<comment> \<open>a pattern character \<open>p\<close> (always ASCII in the source) against an input character under
      the flag \<^verbatim>\<open>i\<close>: no character beyond ASCII canonicalises to an ASCII one\<close>
  "matches_i p c = (upperASCII c = upperASCII p)"

fun prefix_i :: "string \<Rightarrow> string \<Rightarrow> bool" where
  "prefix_i [] s = True"
| "prefix_i (p # ps) [] = False"
| "prefix_i (p # ps) (c # cs) = (matches_i p c \<and> prefix_i ps cs)"

fun contains_i :: "string \<Rightarrow> string \<Rightarrow> bool" where
  "contains_i p [] = (p = [])"
| "contains_i p (c # cs) = (prefix_i p (c # cs) \<or> contains_i p cs)"

definition whole_i :: "string \<Rightarrow> string \<Rightarrow> bool" where
  "whole_i p s = (length s = length p \<and> prefix_i p s)"

definition isLowerAZ :: "char \<Rightarrow> bool" where
  "isLowerAZ c = (97 \<le> (of_char c :: nat) \<and> (of_char c :: nat) \<le> 122)"

definition isUpperAZ09 :: "char \<Rightarrow> bool" where
  "isUpperAZ09 c =
     ((48 \<le> (of_char c :: nat) \<and> (of_char c :: nat) \<le> 57) \<or>
      (65 \<le> (of_char c :: nat) \<and> (of_char c :: nat) \<le> 90))"

datatype RegExp =
    Contains_i string       \<comment> \<open>\<^verbatim>\<open>/lit/i\<close>\<close>
  | Whole_i string          \<comment> \<open>\<^verbatim>\<open>/^lit$/i\<close>\<close>
  | Prefix_i string         \<comment> \<open>\<^verbatim>\<open>/^lit/i\<close>\<close>
  | Prefix string           \<comment> \<open>\<^verbatim>\<open>/^lit/\<close>\<close>
  | Hugg_ingface            \<comment> \<open>\<^verbatim>\<open>/hugg?ingface/i\<close>\<close>
  | Sk_not_lower            \<comment> \<open>\<^verbatim>\<open>/^sk-[^a-z]/\<close>\<close>
  | Akia16                  \<comment> \<open>\<^verbatim>\<open>/^AKIA[0-9A-Z]{16}$/\<close>\<close>

fun test :: "RegExp \<Rightarrow> string \<Rightarrow> bool" where
  "test (Contains_i p) s = contains_i p s"
| "test (Whole_i p) s = whole_i p s"
| "test (Prefix_i p) s = prefix_i p s"
| "test (Prefix p) s = startsWith s p"
| "test Hugg_ingface s = (contains_i ''hugingface'' s \<or> contains_i ''huggingface'' s)"
| "test Sk_not_lower s =
     (startsWith s ''sk-'' \<and> (case drop 3 s of [] \<Rightarrow> False | c # _ \<Rightarrow> \<not> isLowerAZ c))"
| "test Akia16 s =
     (startsWith s ''AKIA'' \<and> length s = 20 \<and> list_all isUpperAZ09 (drop 4 s))"

section \<open>ProviderClassifier\<close>

datatype ApiKeyProvider = OpenAI | Anthropic | Google | AWS | Azure | HuggingFace | Other

datatype PatternRule = PatternRule "RegExp option" "RegExp option"
  \<comment> \<open>the optional \<^verbatim>\<open>key\<close> and the optional \<^verbatim>\<open>value\<close> pattern\<close>

definition PROVIDER_PATTERNS :: "(ApiKeyProvider \<times> PatternRule list) list" where
  "PROVIDER_PATTERNS =
    [(OpenAI,
       [PatternRule (Some (Contains_i ''openai'')) (Some Sk_not_lower),
        PatternRule (Some (Contains_i ''gpt'')) None,
        PatternRule (Some (Whole_i ''OPENAI_API_KEY'')) None]),
     (Google,
       [PatternRule (Some (Contains_i ''google'')) None,
        PatternRule (Some (Contains_i ''gcp'')) None,
        PatternRule (Some (Contains_i ''gemini'')) None,
        PatternRule (Some (Whole_i ''GOOGLE_API_KEY'')) None,
        PatternRule (Some (Whole_i ''API_KEY'')) None]),
     (Anthropic,
       [PatternRule (Some (Contains_i ''anthropic'')) None,
        PatternRule (Some (Contains_i ''claude'')) None,
        PatternRule None (Some (Prefix ''sk-ant-'')),
        PatternRule (Some (Whole_i ''ANTHROPIC_API_KEY'')) None]),
     (Azure,
       [PatternRule (Some (Contains_i ''azure'')) None,
        PatternRule (Some (Contains_i ''microsoft'')) None,
        PatternRule (Some (Contains_i ''cognitive'')) None,
        PatternRule (Some (Prefix_i ''AZURE_'')) None]),
     (HuggingFace,
       [PatternRule (Some Hugg_ingface) None,
        PatternRule (Some (Contains_i ''hf_'')) None,
        PatternRule (Some (Whole_i ''HF_API_KEY'')) None]),
     (AWS,
       [PatternRule (Some (Contains_i ''aws'')) None,
        PatternRule (Some (Contains_i ''amazon'')) None,
        PatternRule (Some (Prefix_i ''AWS_'')) None,
        PatternRule None (Some Akia16)])]"

fun pattern_matches :: "PatternRule \<Rightarrow> string \<Rightarrow> string \<Rightarrow> bool" where
  \<comment> \<open>the condition of the \<^verbatim>\<open>if\<close> in the inner loop\<close>
  "pattern_matches (PatternRule k v) keyName keyValue =
     ((case k of None \<Rightarrow> False | Some r \<Rightarrow> test r keyName) \<or>
      (case v of None \<Rightarrow> False | Some r \<Rightarrow> test r keyValue))"

fun patterns_loop :: "PatternRule list \<Rightarrow> string \<Rightarrow> string \<Rightarrow> bool" where
  \<comment> \<open>the inner \<^verbatim>\<open>for\<close>: does it reach its \<^verbatim>\<open>return\<close>?\<close>
  "patterns_loop [] keyName keyValue = False"
| "patterns_loop (pattern # rest) keyName keyValue =
     (if pattern_matches pattern keyName keyValue then True
      else patterns_loop rest keyName keyValue)"

fun providers_loop ::
  "(ApiKeyProvider \<times> PatternRule list) list \<Rightarrow> string \<Rightarrow> string \<Rightarrow> ApiKeyProvider" where
  \<comment> \<open>the outer \<^verbatim>\<open>for\<close> over \<^verbatim>\<open>Object.entries(PROVIDER_PATTERNS)\<close>\<close>
  "providers_loop [] keyName keyValue = Other"
| "providers_loop ((provider, patterns) # rest) keyName keyValue =
     (if patterns_loop patterns keyName keyValue then provider
      else providers_loop rest keyName keyValue)"

definition detectProvider :: "string \<Rightarrow> string \<Rightarrow> ApiKeyProvider" where
  "detectProvider keyName keyValue = providers_loop PROVIDER_PATTERNS keyName keyValue"

section \<open>LineTokenizer\<close>

definition match_url :: "string \<Rightarrow> bool" where
  \<comment> \<open>\<^verbatim>\<open>/^https?:\/\//i\<close>\<close>
  "match_url line = (prefix_i ''http://'' line \<or> prefix_i ''https://'' line)"

definition match_delimited :: "(char \<Rightarrow> bool) \<Rightarrow> char \<Rightarrow> string \<Rightarrow> (string \<times> string) option" where
  \<comment> \<open>\<^verbatim>\<open>/^([^...]+)d(.*)$/\<close>: the first group is the longest prefix free of the excluded
      characters, it is not empty, the delimiter \<open>d\<close> follows it, and no line terminator
      comes after; the result is the two groups\<close>
  "match_delimited excluded d line =
     (let g1 = takeWhile (\<lambda>c. \<not> excluded c) line in
      case dropWhile (\<lambda>c. \<not> excluded c) line of
        [] \<Rightarrow> None
      | c # g2 \<Rightarrow>
          if g1 \<noteq> [] \<and> c = d \<and> \<not> list_ex isLineTerminator g2 then Some (g1, g2) else None)"

definition match_equals :: "string \<Rightarrow> (string \<times> string) option" where
  \<comment> \<open>\<^verbatim>\<open>/^([^=:]+)=(.*)$/\<close>\<close>
  "match_equals = match_delimited (\<lambda>c. c = CHR ''='' \<or> c = CHR '':'') (CHR ''='')"

definition match_colon :: "string \<Rightarrow> (string \<times> string) option" where
  \<comment> \<open>\<^verbatim>\<open>/^([^:]+):(.*)$/\<close>\<close>
  "match_colon = match_delimited (\<lambda>c. c = CHR '':'') (CHR '':'')"

definition unquote :: "string \<Rightarrow> string" where
  \<comment> \<open>the two branches "Handle quoted values"\<close>
  "unquote v =
     (if startsWith v [CHR 0x22] \<and> endsWith v [CHR 0x22] then substring v 1 (length v - 1)
      else if startsWith v [CHR 0x27] \<and> endsWith v [CHR 0x27] then substring v 1 (length v - 1)
      else v)"

definition extractKeyValuePair :: "string \<Rightarrow> (string \<times> string) option" where
  "extractKeyValuePair line0 =
     (let line = trim line0 in
      if line = [] \<or> startsWith line ''#'' \<or> startsWith line ''//'' then None
      else if match_url line then None
      else case match_equals line of
        Some (g1, g2) \<Rightarrow> Some (trim g1, unquote (trim g2))
      | None \<Rightarrow>
         (case match_colon line of
            Some (g1, g2) \<Rightarrow>
              (let key = trim g1; v = trim g2 in
               if toLowerCase key = ''http'' \<or> toLowerCase key = ''https'' \<or> startsWith v ''//''
               then None
               else Some (key, unquote v))
          | None \<Rightarrow> None))"

section \<open>FormatValidator\<close>

definition special_characters :: string where
  \<comment> \<open>the class of \<^verbatim>\<open>/[\/\\#$%^&*()!@<>{}[\]|]/\<close>\<close>
  "special_characters =
     [CHR ''/'', CHR 0x5C, CHR ''#'', CHR ''$'', CHR ''%'', CHR ''^'', CHR ''&'', CHR ''*'',
      CHR ''('', CHR '')'', CHR ''!'', CHR ''@'', CHR ''<'', CHR ''>'', CHR ''{'', CHR ''}'',
      CHR ''['', CHR '']'', CHR ''|'']"

definition isValidKeyFormat :: "string \<Rightarrow> bool" where
  "isValidKeyFormat key =
     (if includes' key (CHR ''.'') then False
      else if list_ex (\<lambda>c. c \<in> set special_characters) key then False
      else True)"

section \<open>Values, effects and records\<close>

text \<open>
  Types are erased when the program runs: a field of an \<^verbatim>\<open>ApiKey\<close> holds whatever value the
  adapter put there. A number is kept as the JSON text that denotes it; the three things the
  adapters ask of a number (is it zero, is it finite, what is its decimal string) are
  floating-point operations of the runtime and are parameters of the model.
\<close>

datatype jsval =
    Undefined
  | Null
  | Bool bool
  | Num string
  | Str string
  | Arr "jsval list"
  | Obj "(string \<times> jsval) list"

datatype js_error = SyntaxError | TypeError

record ApiKey =
  id' :: jsval
  name :: jsval
  value' :: jsval
  provider :: jsval
  description :: jsval
  dateAdded :: jsval
  lastUsed :: jsval

record runtime =
  randomUUID :: "nat \<Rightarrow> string"        \<comment> \<open>the result of the n-th call of \<^verbatim>\<open>crypto.randomUUID()\<close>\<close>
  toISOString :: "nat \<Rightarrow> string"       \<comment> \<open>the result of the n-th \<^verbatim>\<open>new Date().toISOString()\<close>\<close>
  Number_isZero :: "string \<Rightarrow> bool"     \<comment> \<open>the number a JSON text denotes is \<open>+0\<close> or \<open>-0\<close>\<close>
  Number_isFinite :: "string \<Rightarrow> bool"   \<comment> \<open>the number a JSON text denotes is not an infinity\<close>
  Number_toString :: "string \<Rightarrow> string" \<comment> \<open>the decimal string of the number a JSON text denotes\<close>

record effects =
  uuids :: nat                 \<comment> \<open>calls of \<^verbatim>\<open>crypto.randomUUID()\<close> so far\<close>
  dates :: nat                 \<comment> \<open>calls of \<^verbatim>\<open>new Date()\<close> so far\<close>
  console :: "js_error list"   \<comment> \<open>what \<^verbatim>\<open>console.error\<close> was given, latest last\<close>

fun provider_name :: "ApiKeyProvider \<Rightarrow> string" where
  "provider_name OpenAI = ''OpenAI''"
| "provider_name Anthropic = ''Anthropic''"
| "provider_name Google = ''Google''"
| "provider_name AWS = ''AWS''"
| "provider_name Azure = ''Azure''"
| "provider_name HuggingFace = ''HuggingFace''"
| "provider_name Other = ''Other''"

definition API_KEY_PROVIDERS :: "string list" where
  "API_KEY_PROVIDERS =
     [''OpenAI'', ''Anthropic'', ''Google'', ''AWS'', ''Azure'', ''HuggingFace'', ''Other'']"

fun truthy :: "runtime \<Rightarrow> jsval \<Rightarrow> bool" where
  "truthy rt Undefined = False"
| "truthy rt Null = False"
| "truthy rt (Bool b) = b"
| "truthy rt (Num n) = (\<not> Number_isZero rt n)"
| "truthy rt (Str s) = (s \<noteq> [])"
| "truthy rt (Arr xs) = True"
| "truthy rt (Obj kvs) = True"

section \<open>FileFormatAdapter: line-oriented\<close>

fun split_on :: "char \<Rightarrow> string \<Rightarrow> string list" where
  \<comment> \<open>\<^verbatim>\<open>s.split(d)\<close> for a one-character separator\<close>
  "split_on d [] = [[]]"
| "split_on d (c # cs) =
     (if c = d then [] # split_on d cs
      else (case split_on d cs of piece # pieces \<Rightarrow> (c # piece) # pieces | [] \<Rightarrow> [[c]]))"

definition chop_cr :: "string \<Rightarrow> string" where
  "chop_cr s = (if s \<noteq> [] \<and> last s = CHR 0x0D then butlast s else s)"

definition split_lines :: "string \<Rightarrow> string list" where
  \<comment> \<open>\<^verbatim>\<open>content.split(/\r?\n/)\<close>: a CR right before a LF belongs to the separator\<close>
  "split_lines content =
     (let pieces = split_on (CHR 0x0A) content in map chop_cr (butlast pieces) @ [last pieces])"

definition new_key :: "runtime \<Rightarrow> effects \<Rightarrow> string \<Rightarrow> string \<Rightarrow> jsval \<Rightarrow> ApiKey" where
  \<comment> \<open>the object literal pushed by \<^verbatim>\<open>extractAndCategorizeKeys\<close> and \<^verbatim>\<open>parseCsvFile\<close>\<close>
  "new_key rt e n v p =
     \<lparr> id' = Str (randomUUID rt (uuids e)), name = Str n, value' = Str v, provider = p,
       description = Str [], dateAdded = Str (toISOString rt (dates e)),
       lastUsed = Undefined \<rparr>"

definition tick :: "effects \<Rightarrow> effects" where
  \<comment> \<open>one \<^verbatim>\<open>crypto.randomUUID()\<close> and one \<^verbatim>\<open>new Date()\<close> have been called\<close>
  "tick e = e \<lparr> uuids := Suc (uuids e), dates := Suc (dates e) \<rparr>"

definition categorize_line :: "runtime \<Rightarrow> string \<Rightarrow> ApiKey list \<times> effects \<Rightarrow> ApiKey list \<times> effects" where
  \<comment> \<open>the body of the \<^verbatim>\<open>for\<close> of \<^verbatim>\<open>extractAndCategorizeKeys\<close>\<close>
  "categorize_line rt line st =
     (case extractKeyValuePair line of
        None \<Rightarrow> st
      | Some (k, v) \<Rightarrow>
          if k \<noteq> [] \<and> v \<noteq> [] then
            if \<not> isValidKeyFormat k then st
            else (fst st @ [new_key rt (snd st) k v (Str (provider_name (detectProvider k v)))],
                  tick (snd st))
          else st)"

fun categorize_lines :: "runtime \<Rightarrow> string list \<Rightarrow> ApiKey list \<times> effects \<Rightarrow> ApiKey list \<times> effects" where
  "categorize_lines rt [] st = st"
| "categorize_lines rt (line # lines) st = categorize_lines rt lines (categorize_line rt line st)"

definition extractAndCategorizeKeys :: "runtime \<Rightarrow> string \<Rightarrow> effects \<Rightarrow> ApiKey list \<times> effects" where
  "extractAndCategorizeKeys rt content e = categorize_lines rt (split_lines content) ([], e)"

section \<open>FileFormatAdapter: CSV\<close>

fun findIndex :: "(string \<Rightarrow> bool) \<Rightarrow> string list \<Rightarrow> nat option" where
  \<comment> \<open>\<open>None\<close> is the \<^verbatim>\<open>-1\<close> of \<^verbatim>\<open>Array.prototype.findIndex\<close>\<close>
  "findIndex P [] = None"
| "findIndex P (x # xs) =
     (if P x then Some 0 else (case findIndex P xs of None \<Rightarrow> None | Some i \<Rightarrow> Some (Suc i)))"

definition csv_provider :: "runtime \<Rightarrow> nat option \<Rightarrow> string list \<Rightarrow> string \<Rightarrow> string \<Rightarrow> effects \<Rightarrow> jsval \<times> effects" where
  \<comment> \<open>\<^verbatim>\<open>explicitProvider\<close> and \<^verbatim>\<open>detectedProvider\<close> of a row\<close>
  "csv_provider rt providerIndex values n v e =
     (let explicitProvider =
        (case providerIndex of
           None \<Rightarrow> Null
         | Some i \<Rightarrow> if i < length values \<and> values ! i \<noteq> [] then Str (values ! i) else Null)
      in if truthy rt explicitProvider then (explicitProvider, e)
         else if n \<noteq> [] \<and> v \<noteq> [] then
           (case extractAndCategorizeKeys rt (n @ ''='' @ v) e of
              ([], e') \<Rightarrow> (Undefined, e')
            | (k # _, e') \<Rightarrow> (provider k, e'))
         else (Str ''Other'', e))"

definition csv_row :: "runtime \<Rightarrow> nat \<Rightarrow> nat \<Rightarrow> nat option \<Rightarrow> string \<Rightarrow> ApiKey list \<times> effects \<Rightarrow> ApiKey list \<times> effects" where
  \<comment> \<open>the body of the \<^verbatim>\<open>for\<close> of \<^verbatim>\<open>parseCsvFile\<close>\<close>
  "csv_row rt nameIndex valueIndex providerIndex raw st =
     (let line = trim raw in
      if line = [] then st
      else
        let values = map trim (split_on (CHR '','') line) in
        if length values > max nameIndex valueIndex then
          (let n = values ! nameIndex; v = values ! valueIndex;
               (p, e) = csv_provider rt providerIndex values n v (snd st)
           in (fst st @ [new_key rt e n v p], tick e))
        else st)"

fun csv_rows :: "runtime \<Rightarrow> nat \<Rightarrow> nat \<Rightarrow> nat option \<Rightarrow> string list \<Rightarrow> ApiKey list \<times> effects \<Rightarrow> ApiKey list \<times> effects" where
  "csv_rows rt ni vi pi [] st = st"
| "csv_rows rt ni vi pi (raw # rest) st = csv_rows rt ni vi pi rest (csv_row rt ni vi pi raw st)"

definition parseCsvFile :: "runtime \<Rightarrow> string \<Rightarrow> effects \<Rightarrow> ApiKey list \<times> effects" where
  "parseCsvFile rt content e =
     (let lines = split_on (CHR 0x0A) content in
      if length lines < 2 then ([], e)
      else
        let header = map trim (split_on (CHR '','') (hd lines));
            nameIndex = findIndex (\<lambda>h. toLowerCase h = ''name'' \<or> toLowerCase h = ''key'') header;
            valueIndex = findIndex (\<lambda>h. toLowerCase h = ''value'' \<or> toLowerCase h = ''secret'') header;
            providerIndex =
              findIndex (\<lambda>h. toLowerCase h = ''provider'' \<or> toLowerCase h = ''service'') header
        in case (nameIndex, valueIndex) of
             (Some ni, Some vi) \<Rightarrow> csv_rows rt ni vi providerIndex (tl lines) ([], e)
           | _ \<Rightarrow> ([], e))"

section \<open>The JSON object of the runtime\<close>

text \<open>
  \<^verbatim>\<open>JSON.parse\<close> and \<^verbatim>\<open>JSON.stringify\<close> are built into the runtime; they are modelled after
  their definition in ECMA-262. A parse has four outcomes: \<open>Parsed x\<close>, the value;
  \<open>Malformed\<close>, the \<^verbatim>\<open>SyntaxError\<close>; \<open>Beyond x\<close> for a text that is well formed as far as it
  has been read but has an escape \<^verbatim>\<open>\uXXXX\<close> for a code unit above 255, which is no
  character of this model; and \<open>Exhausted\<close> when the bound on the recursion is reached,
  which does not happen in \<open>JSON_parse\<close>. After such an escape the text is read on as
  before, so that an error further on is still the \<^verbatim>\<open>SyntaxError\<close>; the \<open>x\<close> of
  \<open>Beyond x\<close> holds the low byte in the place of each such code unit and serves for
  nothing but reading on: about the value of such a text this model says nothing.
\<close>

datatype 'a parsed = Parsed 'a | Malformed | Beyond 'a | Exhausted

definition beyond :: "'a parsed \<Rightarrow> 'a parsed" where
  "beyond r = (case r of Parsed x \<Rightarrow> Beyond x | _ \<Rightarrow> r)"

fun bind_parsed :: "'a parsed \<Rightarrow> ('a \<Rightarrow> 'b parsed) \<Rightarrow> 'b parsed" where
  "bind_parsed (Parsed x) f = f x"
| "bind_parsed Malformed f = Malformed"
| "bind_parsed (Beyond x) f = beyond (f x)"
| "bind_parsed Exhausted f = Exhausted"

subsection \<open>Strings\<close>

definition hex_digit :: "nat \<Rightarrow> char" where
  "hex_digit d = (if d < 10 then char_of (48 + d) else char_of (87 + d))"

definition QuoteJSONChar :: "char \<Rightarrow> string" where
  "QuoteJSONChar c =
     (if c = CHR 0x08 then [CHR 0x5C, CHR ''b'']
      else if c = CHR 0x09 then [CHR 0x5C, CHR ''t'']
      else if c = CHR 0x0A then [CHR 0x5C, CHR ''n'']
      else if c = CHR 0x0C then [CHR 0x5C, CHR ''f'']
      else if c = CHR 0x0D then [CHR 0x5C, CHR ''r'']
      else if c = CHR 0x22 then [CHR 0x5C, CHR 0x22]
      else if c = CHR 0x5C then [CHR 0x5C, CHR 0x5C]
      else if (of_char c :: nat) < 32
        then [CHR 0x5C, CHR ''u'', CHR ''0'', CHR ''0'',
              hex_digit ((of_char c :: nat) div 16), hex_digit ((of_char c :: nat) mod 16)]
      else [c])"

definition QuoteJSONString :: "string \<Rightarrow> string" where
  "QuoteJSONString s = [CHR 0x22] @ concat (map QuoteJSONChar s) @ [CHR 0x22]"

definition hex_value :: "char \<Rightarrow> nat option" where
  "hex_value c =
     (let n = (of_char c :: nat) in
      if 48 \<le> n \<and> n \<le> 57 then Some (n - 48)
      else if 97 \<le> n \<and> n \<le> 102 then Some (n - 87)
      else if 65 \<le> n \<and> n \<le> 70 then Some (n - 55)
      else None)"

definition hex4 :: "string \<Rightarrow> nat option" where
  \<comment> \<open>the four hexadecimal digits after \<^verbatim>\<open>\u\<close>\<close>
  "hex4 s =
     (case map hex_value (take 4 s) of
        [Some a, Some b, Some c, Some d] \<Rightarrow> Some (((a * 16 + b) * 16 + c) * 16 + d)
      | _ \<Rightarrow> None)"

definition unescape :: "char \<Rightarrow> char option" where
  \<comment> \<open>the character after a backslash, \<^verbatim>\<open>u\<close> apart\<close>
  "unescape c =
     (if c = CHR 0x22 then Some (CHR 0x22)
      else if c = CHR 0x5C then Some (CHR 0x5C)
      else if c = CHR ''/'' then Some (CHR ''/'')
      else if c = CHR ''b'' then Some (CHR 0x08)
      else if c = CHR ''f'' then Some (CHR 0x0C)
      else if c = CHR ''n'' then Some (CHR 0x0A)
      else if c = CHR ''r'' then Some (CHR 0x0D)
      else if c = CHR ''t'' then Some (CHR 0x09)
      else None)"

definition prepend :: "char \<Rightarrow> (string \<times> string) parsed \<Rightarrow> (string \<times> string) parsed" where
  "prepend c r = bind_parsed r (\<lambda>(s, rest). Parsed (c # s, rest))"

definition escaped :: "nat \<Rightarrow> (string \<times> string) parsed \<Rightarrow> (string \<times> string) parsed" where
  \<comment> \<open>the code unit of an escape \<^verbatim>\<open>\uXXXX\<close> before the rest of the string\<close>
  "escaped n r = (if n < 256 then prepend (char_of n) r else beyond (prepend (char_of n) r))"

fun parse_chars :: "string \<Rightarrow> (string \<times> string) parsed" where
  \<comment> \<open>the characters of a string literal after its opening quote; the result is the string
      denoted and the text after the closing quote\<close>
  "parse_chars [] = Malformed"
| "parse_chars (c # cs) =
     (if c = CHR 0x22 then Parsed ([], cs)
      else if c = CHR 0x5C then
        (case cs of
           [] \<Rightarrow> Malformed
         | e # cs' \<Rightarrow>
             if e = CHR ''u'' then
               (case hex4 cs' of
                  None \<Rightarrow> Malformed
                | Some n \<Rightarrow> escaped n (parse_chars (drop 4 cs')))
             else
               (case unescape e of
                  None \<Rightarrow> Malformed
                | Some x \<Rightarrow> prepend x (parse_chars cs')))
      else if (of_char c :: nat) < 32 then Malformed
      else prepend c (parse_chars cs))"

subsection \<open>Numbers and literals\<close>

definition isDigit :: "char \<Rightarrow> bool" where
  "isDigit c = (48 \<le> (of_char c :: nat) \<and> (of_char c :: nat) \<le> 57)"

definition lex_digits :: "string \<Rightarrow> (string \<times> string) option" where
  \<comment> \<open>one or more digits\<close>
  "lex_digits s =
     (if takeWhile isDigit s = [] then None else Some (takeWhile isDigit s, dropWhile isDigit s))"

definition lex_int :: "string \<Rightarrow> (string \<times> string) option" where
  \<comment> \<open>\<^verbatim>\<open>0\<close>, or a digit from 1 to 9 and then digits\<close>
  "lex_int s =
     (case s of
        [] \<Rightarrow> None
      | c # cs \<Rightarrow>
          if c = CHR ''0'' then Some ([c], cs)
          else if isDigit c then Some (c # takeWhile isDigit cs, dropWhile isDigit cs)
          else None)"

definition lex_frac :: "string \<Rightarrow> (string \<times> string) option" where
  "lex_frac s =
     (case s of
        [] \<Rightarrow> Some ([], [])
      | c # cs \<Rightarrow>
          if c = CHR ''.'' then
            (case lex_digits cs of None \<Rightarrow> None | Some (ds, rest) \<Rightarrow> Some (c # ds, rest))
          else Some ([], s))"

definition lex_exp :: "string \<Rightarrow> (string \<times> string) option" where
  "lex_exp s =
     (case s of
        [] \<Rightarrow> Some ([], [])
      | c # cs \<Rightarrow>
          if c = CHR ''e'' \<or> c = CHR ''E'' then
            (case cs of
               [] \<Rightarrow> None
             | g # gs \<Rightarrow>
                 if g = CHR ''+'' \<or> g = CHR ''-'' then
                   (case lex_digits gs of
                      None \<Rightarrow> None
                    | Some (ds, rest) \<Rightarrow> Some (c # g # ds, rest))
                 else
                   (case lex_digits cs of
                      None \<Rightarrow> None
                    | Some (ds, rest) \<Rightarrow> Some (c # ds, rest)))
          else Some ([], s))"

definition lex_number :: "string \<Rightarrow> (string \<times> string) option" where
  \<comment> \<open>the longest prefix that is a JSON number, and the text after it\<close>
  "lex_number s =
     (let sign = (if s \<noteq> [] \<and> hd s = CHR ''-'' then ''-'' else []);
          s1 = drop (length sign) s
      in case lex_int s1 of
           None \<Rightarrow> None
         | Some (i, s2) \<Rightarrow>
            (case lex_frac s2 of
               None \<Rightarrow> None
             | Some (f, s3) \<Rightarrow>
                (case lex_exp s3 of
                   None \<Rightarrow> None
                 | Some (x, s4) \<Rightarrow> Some (sign @ i @ f @ x, s4))))"

definition lex_literal :: "string \<Rightarrow> jsval \<Rightarrow> string \<Rightarrow> (jsval \<times> string) parsed" where
  "lex_literal word v s = (if startsWith s word then Parsed (v, drop (length word) s) else Malformed)"

subsection \<open>Objects\<close>

fun digits_value :: "int \<Rightarrow> string \<Rightarrow> int" where
  "digits_value acc [] = acc"
| "digits_value acc (c # cs) = digits_value (10 * acc + ((of_char c :: int) - 48)) cs"

definition isArrayIndex :: "string \<Rightarrow> bool" where
  \<comment> \<open>a canonical numeric string below \<open>2^32 - 1\<close>: such keys come first when the properties
      of an object are listed, in ascending order\<close>
  "isArrayIndex k =
     (k \<noteq> [] \<and> list_all isDigit k \<and> (k = ''0'' \<or> hd k \<noteq> CHR ''0'') \<and>
      digits_value 0 k < 4294967295)"

fun insert_index :: "string \<Rightarrow> jsval \<Rightarrow> (string \<times> jsval) list \<Rightarrow> (string \<times> jsval) list" where
  "insert_index k v [] = [(k, v)]"
| "insert_index k v ((k', v') # rest) =
     (if isArrayIndex k' \<and> digits_value 0 k' < digits_value 0 k
      then (k', v') # insert_index k v rest
      else (k, v) # (k', v') # rest)"

definition CreateDataProperty :: "(string \<times> jsval) list \<Rightarrow> string \<Rightarrow> jsval \<Rightarrow> (string \<times> jsval) list" where
  \<comment> \<open>the properties of an object are kept in the order in which they are listed: a property
      set again keeps its place, a new array index goes among the indices, any other new
      key goes last\<close>
  "CreateDataProperty props k v =
     (if map_of props k \<noteq> None then map (\<lambda>(k', v'). if k' = k then (k', v) else (k', v')) props
      else if isArrayIndex k then insert_index k v props
      else props @ [(k, v)])"

fun object_of_members :: "(string \<times> jsval) list \<Rightarrow> (string \<times> jsval) list \<Rightarrow> (string \<times> jsval) list" where
  "object_of_members props [] = props"
| "object_of_members props ((k, v) # members) =
     object_of_members (CreateDataProperty props k v) members"

subsection \<open>JSON.parse\<close>

definition isJSONWhiteSpace :: "char \<Rightarrow> bool" where
  "isJSONWhiteSpace c = (c = CHR 0x09 \<or> c = CHR 0x0A \<or> c = CHR 0x0D \<or> c = CHR 0x20)"

definition skip_ws :: "string \<Rightarrow> string" where
  "skip_ws s = dropWhile isJSONWhiteSpace s"

fun parse_value :: "nat \<Rightarrow> string \<Rightarrow> (jsval \<times> string) parsed"
  and parse_elements :: "nat \<Rightarrow> string \<Rightarrow> (jsval list \<times> string) parsed"
  and parse_members :: "nat \<Rightarrow> string \<Rightarrow> ((string \<times> jsval) list \<times> string) parsed"
where
  "parse_value 0 s = Exhausted"
| "parse_value (Suc n) s =
     (case skip_ws s of
        [] \<Rightarrow> Malformed
      | c # cs \<Rightarrow>
          if c = CHR ''{'' then
            (case skip_ws cs of
               [] \<Rightarrow> Malformed
             | c' # cs' \<Rightarrow>
                 if c' = CHR ''}'' then Parsed (Obj [], cs')
                 else bind_parsed (parse_members n cs)
                        (\<lambda>(members, rest). Parsed (Obj (object_of_members [] members), rest)))
          else if c = CHR ''['' then
            (case skip_ws cs of
               [] \<Rightarrow> Malformed
             | c' # cs' \<Rightarrow>
                 if c' = CHR '']'' then Parsed (Arr [], cs')
                 else bind_parsed (parse_elements n cs) (\<lambda>(elements, rest). Parsed (Arr elements, rest)))
          else if c = CHR 0x22 then
            bind_parsed (parse_chars cs) (\<lambda>(str, rest). Parsed (Str str, rest))
          else if c = CHR ''t'' then lex_literal ''true'' (Bool True) (c # cs)
          else if c = CHR ''f'' then lex_literal ''false'' (Bool False) (c # cs)
          else if c = CHR ''n'' then lex_literal ''null'' Null (c # cs)
          else
            (case lex_number (c # cs) of
               None \<Rightarrow> Malformed
             | Some (lexeme, rest) \<Rightarrow> Parsed (Num lexeme, rest)))"
| "parse_elements 0 s = Exhausted"
| "parse_elements (Suc n) s =
     bind_parsed (parse_value n s) (\<lambda>(v, rest).
       case skip_ws rest of
         [] \<Rightarrow> Malformed
       | c # cs \<Rightarrow>
           if c = CHR '','' then
             bind_parsed (parse_elements n cs) (\<lambda>(vs, rest'). Parsed (v # vs, rest'))
           else if c = CHR '']'' then Parsed ([v], cs)
           else Malformed)"
| "parse_members 0 s = Exhausted"
| "parse_members (Suc n) s =
     (case skip_ws s of
        [] \<Rightarrow> Malformed
      | q # s1 \<Rightarrow>
          if q \<noteq> CHR 0x22 then Malformed
          else bind_parsed (parse_chars s1) (\<lambda>(k, s2).
            case skip_ws s2 of
              [] \<Rightarrow> Malformed
            | colon # s3 \<Rightarrow>
                if colon \<noteq> CHR '':'' then Malformed
                else bind_parsed (parse_value n s3) (\<lambda>(v, s4).
                  case skip_ws s4 of
                    [] \<Rightarrow> Malformed
                  | c # cs \<Rightarrow>
                      if c = CHR '','' then
                        bind_parsed (parse_members n cs)
                          (\<lambda>(members, rest). Parsed ((k, v) # members, rest))
                      else if c = CHR ''}'' then Parsed ([(k, v)], cs)
                      else Malformed)))"

definition JSON_parse :: "string \<Rightarrow> jsval parsed" where
  "JSON_parse text =
     bind_parsed (parse_value (2 * length text + 2) text)
       (\<lambda>(v, rest). if skip_ws rest = [] then Parsed v else Malformed)"

subsection \<open>JSON.stringify\<close>

fun join :: "string \<Rightarrow> string list \<Rightarrow> string" where
  "join sep [] = []"
| "join sep [x] = x"
| "join sep (x # y # ys) = x @ sep @ join sep (y # ys)"

definition wrap :: "char \<Rightarrow> char \<Rightarrow> string \<Rightarrow> string \<Rightarrow> string list \<Rightarrow> string" where
  \<comment> \<open>the text of an array or an object from the texts of its parts, for the gap and the
      indentation of the enclosing level\<close>
  "wrap opening closing gap indent parts =
     (if parts = [] then [opening, closing]
      else if gap = [] then [opening] @ join '','' parts @ [closing]
      else [opening, CHR 0x0A] @ indent @ gap @
           join ([CHR '','', CHR 0x0A] @ indent @ gap) parts @
           [CHR 0x0A] @ indent @ [closing])"

fun SerializeJSONProperty :: "runtime \<Rightarrow> string \<Rightarrow> string \<Rightarrow> jsval \<Rightarrow> string option"
  and SerializeJSONArray :: "runtime \<Rightarrow> string \<Rightarrow> string \<Rightarrow> jsval list \<Rightarrow> string list"
  and SerializeJSONObject :: "runtime \<Rightarrow> string \<Rightarrow> string \<Rightarrow> (string \<times> jsval) list \<Rightarrow> string list"
where
  "SerializeJSONProperty rt gap indent Undefined = None"
| "SerializeJSONProperty rt gap indent Null = Some ''null''"
| "SerializeJSONProperty rt gap indent (Bool b) = Some (if b then ''true'' else ''false'')"
| "SerializeJSONProperty rt gap indent (Num n) =
     Some (if Number_isFinite rt n then Number_toString rt n else ''null'')"
| "SerializeJSONProperty rt gap indent (Str s) = Some (QuoteJSONString s)"
| "SerializeJSONProperty rt gap indent (Arr xs) =
     Some (wrap (CHR ''['') (CHR '']'') gap indent (SerializeJSONArray rt gap (indent @ gap) xs))"
| "SerializeJSONProperty rt gap indent (Obj props) =
     Some (wrap (CHR ''{'') (CHR ''}'') gap indent (SerializeJSONObject rt gap (indent @ gap) props))"
| "SerializeJSONArray rt gap indent [] = []"
| "SerializeJSONArray rt gap indent (x # xs) =
     (case SerializeJSONProperty rt gap indent x of None \<Rightarrow> ''null'' | Some t \<Rightarrow> t)
       # SerializeJSONArray rt gap indent xs"
| "SerializeJSONObject rt gap indent [] = []"
| "SerializeJSONObject rt gap indent ((k, v) # props) =
     (case SerializeJSONProperty rt gap indent v of
        None \<Rightarrow> SerializeJSONObject rt gap indent props
      | Some t \<Rightarrow>
          (QuoteJSONString k @ (if gap = [] then '':'' else '': '') @ t)
            # SerializeJSONObject rt gap indent props)"

definition JSON_stringify :: "runtime \<Rightarrow> jsval \<Rightarrow> nat \<Rightarrow> string option" where
  \<comment> \<open>\<^verbatim>\<open>JSON.stringify(value, null, space)\<close> for a number of spaces up to 10; \<open>None\<close> is
      \<^verbatim>\<open>undefined\<close>\<close>
  "JSON_stringify rt v space = SerializeJSONProperty rt (replicate (min space 10) (CHR '' '')) [] v"

section \<open>FileFormatAdapter: JSON\<close>

subsection \<open>Coercions of the runtime\<close>

fun ToString :: "runtime \<Rightarrow> jsval \<Rightarrow> js_error + string"
  and ToString_elements :: "runtime \<Rightarrow> jsval list \<Rightarrow> js_error + string list"
where
  "ToString rt Undefined = Inr ''undefined''"
| "ToString rt Null = Inr ''null''"
| "ToString rt (Bool b) = Inr (if b then ''true'' else ''false'')"
| "ToString rt (Num n) = Inr (Number_toString rt n)"
| "ToString rt (Str s) = Inr s"
| "ToString rt (Arr xs) =
     (case ToString_elements rt xs of Inl err \<Rightarrow> Inl err | Inr parts \<Rightarrow> Inr (join '','' parts))"
| "ToString rt (Obj props) =
     \<comment> \<open>an own property \<^verbatim>\<open>toString\<close> of a parsed object is never callable, and
         \<^verbatim>\<open>valueOf\<close> then yields no primitive\<close>
     (if map_of props ''toString'' \<noteq> None then Inl TypeError else Inr ''[object Object]'')"
| "ToString_elements rt [] = Inr []"
| "ToString_elements rt (x # xs) =
     (case (case x of Undefined \<Rightarrow> Inr [] | Null \<Rightarrow> Inr [] | _ \<Rightarrow> ToString rt x) of
        Inl err \<Rightarrow> Inl err
      | Inr part \<Rightarrow>
          (case ToString_elements rt xs of
             Inl err \<Rightarrow> Inl err
           | Inr parts \<Rightarrow> Inr (part # parts)))"

fun typeof_is_object :: "jsval \<Rightarrow> bool" where
  \<comment> \<open>\<^verbatim>\<open>typeof item === "object"\<close>\<close>
  "typeof_is_object Null = True"
| "typeof_is_object (Arr xs) = True"
| "typeof_is_object (Obj props) = True"
| "typeof_is_object v = False"

fun field :: "jsval \<Rightarrow> string \<Rightarrow> jsval" where
  \<comment> \<open>\<^verbatim>\<open>item.p\<close> for an item that is neither \<^verbatim>\<open>null\<close> nor \<^verbatim>\<open>undefined\<close> and one of the
      property names of an \<^verbatim>\<open>ApiKey\<close>, which no prototype defines\<close>
  "field (Obj props) p = (case map_of props p of None \<Rightarrow> Undefined | Some v \<Rightarrow> v)"
| "field v p = Undefined"

function decimal :: "nat \<Rightarrow> string" where
  "decimal n = (if n < 10 then [char_of (48 + n)] else decimal (n div 10) @ [char_of (48 + n mod 10)])"
  by pat_completeness auto
termination
  by (relation "measure id") auto

fun Object_entries :: "jsval \<Rightarrow> js_error + (string \<times> jsval) list" where
  "Object_entries Undefined = Inl TypeError"
| "Object_entries Null = Inl TypeError"
| "Object_entries (Bool b) = Inr []"
| "Object_entries (Num n) = Inr []"
| "Object_entries (Str s) = Inr (map (\<lambda>i. (decimal i, Str [s ! i])) [0..<length s])"
| "Object_entries (Arr xs) = Inr (map (\<lambda>i. (decimal i, xs ! i)) [0..<length xs])"
| "Object_entries (Obj props) = Inr props"

subsection \<open>The classifier on values that are not known to be strings\<close>

definition test_coercing :: "runtime \<Rightarrow> RegExp option \<Rightarrow> jsval \<Rightarrow> js_error + bool" where
  \<comment> \<open>\<^verbatim>\<open>pattern.key && pattern.key.test(x)\<close>: \<^verbatim>\<open>test\<close> converts its argument to a string\<close>
  "test_coercing rt pat x =
     (case pat of
        None \<Rightarrow> Inr False
      | Some r \<Rightarrow> (case ToString rt x of Inl err \<Rightarrow> Inl err | Inr s \<Rightarrow> Inr (test r s)))"

fun pattern_matches_coercing :: "runtime \<Rightarrow> PatternRule \<Rightarrow> jsval \<Rightarrow> jsval \<Rightarrow> js_error + bool" where
  "pattern_matches_coercing rt (PatternRule k v) keyName keyValue =
     (case test_coercing rt k keyName of
        Inl err \<Rightarrow> Inl err
      | Inr matched \<Rightarrow> if matched then Inr True else test_coercing rt v keyValue)"

fun patterns_loop_coercing :: "runtime \<Rightarrow> PatternRule list \<Rightarrow> jsval \<Rightarrow> jsval \<Rightarrow> js_error + bool" where
  "patterns_loop_coercing rt [] keyName keyValue = Inr False"
| "patterns_loop_coercing rt (pattern # rest) keyName keyValue =
     (case pattern_matches_coercing rt pattern keyName keyValue of
        Inl err \<Rightarrow> Inl err
      | Inr matched \<Rightarrow>
          if matched then Inr True else patterns_loop_coercing rt rest keyName keyValue)"

fun providers_loop_coercing ::
  "runtime \<Rightarrow> (ApiKeyProvider \<times> PatternRule list) list \<Rightarrow> jsval \<Rightarrow> jsval \<Rightarrow> js_error + ApiKeyProvider" where
  "providers_loop_coercing rt [] keyName keyValue = Inr Other"
| "providers_loop_coercing rt ((prov, patterns) # rest) keyName keyValue =
     (case patterns_loop_coercing rt patterns keyName keyValue of
        Inl err \<Rightarrow> Inl err
      | Inr matched \<Rightarrow>
          if matched then Inr prov else providers_loop_coercing rt rest keyName keyValue)"

definition detectProvider_coercing :: "runtime \<Rightarrow> jsval \<Rightarrow> jsval \<Rightarrow> js_error + ApiKeyProvider" where
  \<comment> \<open>\<^verbatim>\<open>detectProvider\<close> as the JSON array adapter calls it, on whatever the document holds\<close>
  "detectProvider_coercing rt keyName keyValue =
     providers_loop_coercing rt PROVIDER_PATTERNS keyName keyValue"

subsection \<open>The array form\<close>

definition key_of_item :: "runtime \<Rightarrow> jsval \<Rightarrow> effects \<Rightarrow> (js_error + ApiKey) \<times> effects" where
  \<comment> \<open>the object literal of the \<^verbatim>\<open>map\<close> callback, its properties evaluated in their order\<close>
  "key_of_item rt item e =
     (let (i, e1) =
            (if truthy rt (field item ''id'') then (field item ''id'', e)
             else (Str (randomUUID rt (uuids e)), e \<lparr> uuids := Suc (uuids e) \<rparr>))
      in case (if truthy rt (field item ''provider'') then Inr (field item ''provider'')
               else (case detectProvider_coercing rt (field item ''name'') (field item ''value'') of
                       Inl err \<Rightarrow> Inl err
                     | Inr p \<Rightarrow> Inr (Str (provider_name p)))) of
           Inl err \<Rightarrow> (Inl err, e1)
         | Inr p \<Rightarrow>
             (let d = (if truthy rt (field item ''description'') then field item ''description''
                       else Str []);
                  (t, e2) =
                    (if truthy rt (field item ''dateAdded'') then (field item ''dateAdded'', e1)
                     else (Str (toISOString rt (dates e1)), e1 \<lparr> dates := Suc (dates e1) \<rparr>))
              in (Inr \<lparr> id' = i, name = field item ''name'', value' = field item ''value'',
                        provider = p, description = d, dateAdded = t,
                        lastUsed = field item ''lastUsed'' \<rparr>, e2)))"

definition array_item :: "runtime \<Rightarrow> jsval \<Rightarrow> effects \<Rightarrow> (js_error + ApiKey option) \<times> effects" where
  \<comment> \<open>the \<^verbatim>\<open>map\<close> callback; \<open>None\<close> is its \<^verbatim>\<open>null\<close>. The type of \<^verbatim>\<open>null\<close> is
      \<^verbatim>\<open>"object"\<close>, and reading \<^verbatim>\<open>null.name\<close> throws\<close>
  "array_item rt item e =
     (if item = Null then (Inl TypeError, e)
      else if typeof_is_object item \<and> truthy rt (field item ''name'') \<and> truthy rt (field item ''value'')
      then (case key_of_item rt item e of
              (Inl err, e') \<Rightarrow> (Inl err, e')
            | (Inr k, e') \<Rightarrow> (Inr (Some k), e'))
      else (Inr None, e))"

fun array_items :: "runtime \<Rightarrow> jsval list \<Rightarrow> effects \<Rightarrow> (js_error + ApiKey list) \<times> effects" where
  \<comment> \<open>\<^verbatim>\<open>parsed.map(...).filter(Boolean)\<close>: the first exception ends the \<^verbatim>\<open>map\<close>\<close>
  "array_items rt [] e = (Inr [], e)"
| "array_items rt (item # items) e =
     (case array_item rt item e of
        (Inl err, e') \<Rightarrow> (Inl err, e')
      | (Inr r, e') \<Rightarrow>
          (case array_items rt items e' of
             (Inl err, e'') \<Rightarrow> (Inl err, e'')
           | (Inr ks, e'') \<Rightarrow> (Inr ((case r of None \<Rightarrow> [] | Some k \<Rightarrow> [k]) @ ks), e'')))"

subsection \<open>The object form\<close>

definition key_of_entry :: "runtime \<Rightarrow> string \<times> jsval \<Rightarrow> effects \<Rightarrow> ApiKey" where
  \<comment> \<open>the object literal for one entry; \<^verbatim>\<open>JSON.stringify\<close> yields \<^verbatim>\<open>undefined\<close> for
      \<^verbatim>\<open>undefined\<close> only, which the classifier reads as the string \<^verbatim>\<open>"undefined"\<close>\<close>
  "key_of_entry rt entry e =
     (let strValue =
            (case snd entry of
               Str s \<Rightarrow> Str s
             | v \<Rightarrow> (case JSON_stringify rt v 0 of None \<Rightarrow> Undefined | Some t \<Rightarrow> Str t))
      in \<lparr> id' = Str (randomUUID rt (uuids e)), name = Str (fst entry), value' = strValue,
           provider =
             Str (provider_name
                    (detectProvider (fst entry)
                       (case strValue of Str s \<Rightarrow> s | _ \<Rightarrow> ''undefined''))),
           description = Str [], dateAdded = Str (toISOString rt (dates e)),
           lastUsed = Undefined \<rparr>)"

fun entries_loop :: "runtime \<Rightarrow> (string \<times> jsval) list \<Rightarrow> effects \<Rightarrow> ApiKey list \<times> effects" where
  "entries_loop rt [] e = ([], e)"
| "entries_loop rt (entry # entries) e =
     (case entries_loop rt entries (tick e) of
        (ks, e') \<Rightarrow> (key_of_entry rt entry e # ks, e'))"

subsection \<open>extractKeysFromFile\<close>

definition json_keys :: "runtime \<Rightarrow> jsval \<Rightarrow> effects \<Rightarrow> (js_error + ApiKey list) \<times> effects" where
  \<comment> \<open>the \<^verbatim>\<open>try\<close> block after \<^verbatim>\<open>JSON.parse\<close>\<close>
  "json_keys rt parsed e =
     (case parsed of
        Arr items \<Rightarrow> array_items rt items e
      | _ \<Rightarrow>
          (case Object_entries parsed of
             Inl err \<Rightarrow> (Inl err, e)
           | Inr entries \<Rightarrow> (case entries_loop rt entries e of (ks, e') \<Rightarrow> (Inr ks, e'))))"

definition catch_json :: "(js_error + ApiKey list) \<times> effects \<Rightarrow> ApiKey list \<times> effects" where
  \<comment> \<open>the \<^verbatim>\<open>catch\<close>: \<^verbatim>\<open>console.error("Error parsing JSON:", error); return [];\<close>\<close>
  "catch_json r =
     (case r of
        (Inl err, e) \<Rightarrow> ([], e \<lparr> console := console e @ [err] \<rparr>)
      | (Inr ks, e) \<Rightarrow> (ks, e))"

definition extractKeysFromFile :: "runtime \<Rightarrow> string \<Rightarrow> string \<Rightarrow> effects \<Rightarrow> (ApiKey list \<times> effects) option" where
  \<comment> \<open>\<open>None\<close>: the content is a JSON text that this model does not cover\<close>
  "extractKeysFromFile rt content fileExtension e =
     (if fileExtension \<in> set [''.env'', ''.txt'', ''.properties'', ''.conf'', ''.cfg'', ''.ini'']
      then Some (extractAndCategorizeKeys rt content e)
      else if fileExtension = ''.json'' then
        (case JSON_parse content of
           Beyond parsed \<Rightarrow> None
         | Exhausted \<Rightarrow> None
         | Malformed \<Rightarrow> Some (catch_json (Inl SyntaxError, e))
         | Parsed parsed \<Rightarrow> Some (catch_json (json_keys rt parsed e)))
      else Some (extractAndCategorizeKeys rt content e))"

definition parseJsonFile :: "runtime \<Rightarrow> string \<Rightarrow> effects \<Rightarrow> (ApiKey list \<times> effects) option" where
  "parseJsonFile rt content e = extractKeysFromFile rt content ''.json'' e"

section \<open>Export\<close>

definition KEY_PROPERTIES :: "string list" where
  \<comment> \<open>the property names of the interface \<^verbatim>\<open>ApiKey\<close>\<close>
  "KEY_PROPERTIES =
     [''id'', ''name'', ''value'', ''provider'', ''description'', ''dateAdded'', ''lastUsed'']"

definition property :: "ApiKey \<Rightarrow> string \<Rightarrow> jsval" where
  "property k p =
     (if p = ''id'' then id' k
      else if p = ''name'' then name k
      else if p = ''value'' then value' k
      else if p = ''provider'' then provider k
      else if p = ''description'' then description k
      else if p = ''dateAdded'' then dateAdded k
      else if p = ''lastUsed'' then lastUsed k
      else Undefined)"

definition object_of_key :: "string list \<Rightarrow> ApiKey \<Rightarrow> jsval" where
  \<comment> \<open>an \<^verbatim>\<open>ApiKey\<close> as the object it is at run time, for the order in which its properties
      were created: the line and CSV adapters write \<^verbatim>\<open>dateAdded\<close> before
      \<^verbatim>\<open>description\<close>, the JSON array adapter after it. A property that was never
      created reads as \<^verbatim>\<open>undefined\<close>, and \<^verbatim>\<open>JSON.stringify\<close> treats the two alike\<close>
  "object_of_key names k = Obj (map (\<lambda>p. (p, property k p)) names)"

definition or_empty :: "runtime \<Rightarrow> jsval \<Rightarrow> jsval" where
  \<comment> \<open>\<^verbatim>\<open>x || ""\<close>\<close>
  "or_empty rt x = (if truthy rt x then x else Str [])"

fun template :: "runtime \<Rightarrow> (string + jsval) list \<Rightarrow> js_error + string" where
  \<comment> \<open>a template literal: its fixed texts (\<open>Inl\<close>) and its substitutions (\<open>Inr\<close>), each
      substitution converted to a string\<close>
  "template rt [] = Inr []"
| "template rt (Inl text # parts) =
     (case template rt parts of Inl err \<Rightarrow> Inl err | Inr s \<Rightarrow> Inr (text @ s))"
| "template rt (Inr x # parts) =
     (case ToString rt x of
        Inl err \<Rightarrow> Inl err
      | Inr t \<Rightarrow> (case template rt parts of Inl err \<Rightarrow> Inl err | Inr s \<Rightarrow> Inr (t @ s)))"

fun map_lines :: "(ApiKey \<Rightarrow> js_error + string) \<Rightarrow> ApiKey list \<Rightarrow> js_error + string list" where
  \<comment> \<open>\<^verbatim>\<open>keys.map(...)\<close> with a callback that may throw\<close>
  "map_lines f [] = Inr []"
| "map_lines f (k # ks) =
     (case f k of
        Inl err \<Rightarrow> Inl err
      | Inr l \<Rightarrow> (case map_lines f ks of Inl err \<Rightarrow> Inl err | Inr ls \<Rightarrow> Inr (l # ls)))"

definition formatApiKeysForExport ::
  "runtime \<Rightarrow> (ApiKey \<Rightarrow> string list) \<Rightarrow> ApiKey list \<Rightarrow> string \<Rightarrow> js_error + string" where
  \<comment> \<open>\<open>layout\<close> gives the property names of each key object in the order of their
      creation, and \<open>extension\<close> is \<^verbatim>\<open>format.extension\<close>\<close>
  "formatApiKeysForExport rt layout keys extension =
     (if extension = ''.key'' \<or> extension = ''.json'' then
        (case JSON_stringify rt (Arr (map (\<lambda>k. object_of_key (layout k) k) keys)) 2 of
           None \<Rightarrow> Inr [] | Some text \<Rightarrow> Inr text)
      else if extension = ''.env'' then
        (case map_lines (\<lambda>k. template rt [Inr (name k), Inl ''='', Inr (value' k)]) keys of
           Inl err \<Rightarrow> Inl err
         | Inr ls \<Rightarrow> Inr (join [CHR 0x0A] ls))
      else if extension = ''.csv'' then
        (case map_lines
                (\<lambda>k. template rt
                   [Inr (name k), Inl '','', Inr (value' k), Inl '','', Inr (provider k), Inl '','',
                    Inr (or_empty rt (description k)), Inl '','', Inr (dateAdded k), Inl '','',
                    Inr (or_empty rt (lastUsed k))]) keys of
           Inl err \<Rightarrow> Inl err
         | Inr rows \<Rightarrow>
             Inr (join [CHR 0x0A] (''name,value,provider,description,dateAdded,lastUsed'' # rows)))
      else if extension = ''.txt'' then
        (case map_lines (\<lambda>k. template rt [Inr (name k), Inl '': '', Inr (value' k)]) keys of
           Inl err \<Rightarrow> Inl err
         | Inr ls \<Rightarrow> Inr (join [CHR 0x0A] ls))
      else Inr [])"

section \<open>Notions used by the properties\<close>

fun plain :: "jsval \<Rightarrow> bool"
  and plain_list :: "jsval list \<Rightarrow> bool"
  and plain_props :: "(string \<times> jsval) list \<Rightarrow> bool"
where
  \<comment> \<open>the values built from \<^verbatim>\<open>null\<close>, booleans, strings, arrays and objects whose keys are
      distinct and are no array indices\<close>
  "plain Undefined = False"
| "plain Null = True"
| "plain (Bool b) = True"
| "plain (Num n) = False"
| "plain (Str s) = True"
| "plain (Arr xs) = plain_list xs"
| "plain (Obj props) =
     (plain_props props \<and> distinct (map fst props) \<and> \<not> list_ex isArrayIndex (map fst props))"
| "plain_list [] = True"
| "plain_list (x # xs) = (plain x \<and> plain_list xs)"
| "plain_props [] = True"
| "plain_props ((k, v) # props) = (plain v \<and> plain_props props)"

fun reading :: "'a parsed \<Rightarrow> 'a option" where
  \<comment> \<open>what a parse has read when it went through, within the characters of the model or not\<close>
  "reading (Parsed x) = Some x"
| "reading (Beyond x) = Some x"
| "reading Malformed = None"
| "reading Exhausted = None"

fun is_string :: "jsval \<Rightarrow> bool" where
  "is_string (Str s) = True"
| "is_string v = False"

fun is_nonempty_string :: "jsval \<Rightarrow> bool" where
  "is_nonempty_string (Str s) = (s \<noteq> [])"
| "is_nonempty_string v = False"

definition classified :: "ApiKey \<Rightarrow> bool" where
  \<comment> \<open>the name and the value are strings, and the provider is what the classifier says of
      them\<close>
  "classified k =
     (case name k of
        Str n \<Rightarrow>
          (case value' k of
             Str v \<Rightarrow> provider k = Str (provider_name (detectProvider n v))
           | _ \<Rightarrow> False)
      | _ \<Rightarrow> False)"

definition line_key :: "ApiKey \<Rightarrow> bool" where
  \<comment> \<open>what every record of the line-oriented adapter satisfies\<close>
  "line_key k = (is_nonempty_string (name k) \<and> is_nonempty_string (value' k) \<and>
                 provider k \<in> set (map Str API_KEY_PROVIDERS) \<and> classified k)"

definition csv_column :: "string list \<Rightarrow> string \<Rightarrow> nat option" where
  \<comment> \<open>the first column of a CSV file whose title, in lower case, is one of the names\<close>
  "csv_column names content =
     findIndex (\<lambda>h. toLowerCase h \<in> set names)
       (map trim (split_on (CHR '','') (hd (split_on (CHR 0x0A) content))))"

definition csv_cells :: "string \<Rightarrow> string list" where
  \<comment> \<open>the cells of a row of a CSV file\<close>
  "csv_cells raw = map trim (split_on (CHR '','') (trim raw))"

definition csv_data_rows :: "nat \<Rightarrow> nat \<Rightarrow> string \<Rightarrow> string list list" where
  \<comment> \<open>the cells of the rows after the title row that are not blank and reach both columns\<close>
  "csv_data_rows ni vi content =
     filter (\<lambda>cells. max ni vi < length cells)
       (map csv_cells (filter (\<lambda>raw. trim raw \<noteq> []) (tl (split_on (CHR 0x0A) content))))"


definition exportable :: "ApiKey \<Rightarrow> bool" where
  \<comment> \<open>a record typed as the interface \<^verbatim>\<open>ApiKey\<close> says, whose \<^verbatim>\<open>id\<close>, \<^verbatim>\<open>name\<close>,
      \<^verbatim>\<open>value\<close>, \<^verbatim>\<open>provider\<close> and \<^verbatim>\<open>dateAdded\<close> are not empty\<close>
  "exportable k =
     (is_nonempty_string (id' k) \<and> is_nonempty_string (name k) \<and> is_nonempty_string (value' k) \<and>
      is_nonempty_string (provider k) \<and> is_string (description k) \<and>
      is_nonempty_string (dateAdded k) \<and> (lastUsed k = Undefined \<or> is_string (lastUsed k)))"

definition laid_out :: "string list \<Rightarrow> bool" where
  \<comment> \<open>the names are the properties of an \<^verbatim>\<open>ApiKey\<close>, each once, in some order\<close>
  "laid_out names = (distinct names \<and> set names = set KEY_PROPERTIES)"

definition stored_object :: "string list \<Rightarrow> ApiKey \<Rightarrow> jsval" where
  \<comment> \<open>what \<^verbatim>\<open>JSON.stringify\<close> keeps of \<open>object_of_key\<close>: a property that is
      \<^verbatim>\<open>undefined\<close> is left out\<close>
  "stored_object names k =
     Obj (filter (\<lambda>(p, v). v \<noteq> Undefined) (map (\<lambda>p. (p, property k p)) names))"

text \<open>
  The next notions say that \<^verbatim>\<open>JSON.parse\<close> reads back what \<^verbatim>\<open>JSON.stringify\<close> wrote:
  a value from its text after any white space and with enough recursion depth, the elements
  of an array and the members of an object from their texts joined by commas.
\<close>

definition blank :: "string \<Rightarrow> bool" where
  "blank s = list_all isJSONWhiteSpace s"

definition opens_value :: "string \<Rightarrow> bool" where
  "opens_value t = (t \<noteq> [] \<and> \<not> isJSONWhiteSpace (hd t) \<and> hd t \<noteq> CHR '']'' \<and> hd t \<noteq> CHR ''}'')"

definition reads_value :: "runtime \<Rightarrow> string \<Rightarrow> jsval \<Rightarrow> bool" where
  "reads_value rt gap v =
     (\<forall>ind. blank ind \<longrightarrow>
        (\<exists>t. SerializeJSONProperty rt gap ind v = Some t \<and> opens_value t \<and>
             (\<forall>n pad rest. blank pad \<longrightarrow> length t \<le> n \<longrightarrow>
                parse_value n (pad @ t @ rest) = Parsed (v, rest))))"

definition reads_elements :: "runtime \<Rightarrow> string \<Rightarrow> jsval list \<Rightarrow> bool" where
  "reads_elements rt gap xs =
     (\<forall>ind. blank ind \<longrightarrow>
        length (SerializeJSONArray rt gap ind xs) = length xs \<and>
        list_all opens_value (SerializeJSONArray rt gap ind xs) \<and>
        (\<forall>n pad sepws tail rest.
           xs \<noteq> [] \<longrightarrow> blank pad \<longrightarrow> blank sepws \<longrightarrow> blank tail \<longrightarrow>
           length (join (CHR '','' # sepws) (SerializeJSONArray rt gap ind xs)) < n \<longrightarrow>
           parse_elements n
             (pad @ join (CHR '','' # sepws) (SerializeJSONArray rt gap ind xs) @ tail @ CHR '']'' # rest) =
           Parsed (xs, rest)))"

definition reads_members :: "runtime \<Rightarrow> string \<Rightarrow> (string \<times> jsval) list \<Rightarrow> bool" where
  "reads_members rt gap props =
     (\<forall>ind. blank ind \<longrightarrow>
        length (SerializeJSONObject rt gap ind props) = length props \<and>
        list_all opens_value (SerializeJSONObject rt gap ind props) \<and>
        (\<forall>n pad sepws tail rest.
           props \<noteq> [] \<longrightarrow> blank pad \<longrightarrow> blank sepws \<longrightarrow> blank tail \<longrightarrow>
           length (join (CHR '','' # sepws) (SerializeJSONObject rt gap ind props)) < n \<longrightarrow>
           parse_members n
             (pad @ join (CHR '','' # sepws) (SerializeJSONObject rt gap ind props) @ tail @ CHR ''}'' # rest) =
           Parsed (props, rest)))"

definition example_runtime :: runtime where
  \<comment> \<open>a runtime to evaluate examples with: numbered identifiers, a clock that stands still,
      and numbers read as their text\<close>
  "example_runtime =
     \<lparr> randomUUID = (\<lambda>n. ''uuid-'' @ decimal n),
       toISOString = (\<lambda>n. ''2025-01-01T00:00:00.000Z''),
       Number_isZero = (\<lambda>n. n = ''0''),
       Number_isFinite = (\<lambda>n. True),
       Number_toString = (\<lambda>n. n) \<rparr>"

definition no_effects :: effects where
  "no_effects = \<lparr> uuids = 0, dates = 0, console = [] \<rparr>"

section \<open>Properties\<close>

subsection \<open>FormatValidator\<close>

text \<open>
  C9. \<open>isValidKeyFormat\<close> is false for every string with a dot, false for every string with
  one of the characters \<^verbatim>\<open>/ \ # $ % ^ & * ( ) ! @ < > { } [ ] |\<close>, and true for every
  other string.
\<close>

theorem isValidKeyFormat_iff:
  "isValidKeyFormat key \<longleftrightarrow>
     set key \<inter> set (CHR ''.'' # ''/'' @ [CHR 0x5C] @ ''#$%^&*()!@<>{}[]|'') = {}"
  by (auto simp add: isValidKeyFormat_def includes'_def special_characters_def list_ex_iff)

subsection \<open>ProviderClassifier\<close>

lemma patterns_loop_ex: "patterns_loop ps n v = list_ex (\<lambda>r. pattern_matches r n v) ps"
  by (induction ps) auto

lemma providers_loop_find:
  "providers_loop tbl n v =
     (case find (\<lambda>(p, rules). list_ex (\<lambda>r. pattern_matches r n v) rules) tbl of
        None \<Rightarrow> Other | Some (p, rules) \<Rightarrow> p)"
  by (induction tbl) (auto simp add: patterns_loop_ex)

text \<open>
  C1. \<open>detectProvider\<close> walks the providers in the order OpenAI, Google, Anthropic, Azure,
  HuggingFace, AWS and the rules of each provider in their order; a rule matches when its key
  pattern tests true on the name or its value pattern tests true on the value, an absent
  pattern counting as no match; the result is the first provider that owns a matching rule,
  and \<open>Other\<close> when no rule of the table matches.
\<close>

theorem detectProvider_first_match:
  "map fst PROVIDER_PATTERNS = [OpenAI, Google, Anthropic, Azure, HuggingFace, AWS] \<and>
   (pattern_matches (PatternRule k v) keyName keyValue \<longleftrightarrow>
      (\<exists>r. k = Some r \<and> test r keyName) \<or> (\<exists>r. v = Some r \<and> test r keyValue)) \<and>
   detectProvider keyName keyValue =
     (case find (\<lambda>(p, rules). list_ex (\<lambda>r. pattern_matches r keyName keyValue) rules)
             PROVIDER_PATTERNS of
        None \<Rightarrow> Other
      | Some (p, rules) \<Rightarrow> p)"
proof (intro conjI)
  show "map fst PROVIDER_PATTERNS = [OpenAI, Google, Anthropic, Azure, HuggingFace, AWS]"
    by (simp add: PROVIDER_PATTERNS_def)
  show "pattern_matches (PatternRule k v) keyName keyValue \<longleftrightarrow>
      (\<exists>r. k = Some r \<and> test r keyName) \<or> (\<exists>r. v = Some r \<and> test r keyValue)"
    by (cases k; cases v) simp_all
  show "detectProvider keyName keyValue =
     (case find (\<lambda>(p, rules). list_ex (\<lambda>r. pattern_matches r keyName keyValue) rules)
             PROVIDER_PATTERNS of
        None \<Rightarrow> Other
      | Some (p, rules) \<Rightarrow> p)"
    unfolding detectProvider_def by (rule providers_loop_find)
qed

subsection \<open>LineTokenizer: the guards\<close>

lemma char_eq_iff_nat: "(c = d) = ((of_char c :: nat) = of_char d)"
  by simp

lemma of_char_upperASCII:
  "(of_char (upperASCII c) :: nat) =
     (if 97 \<le> (of_char c :: nat) \<and> (of_char c :: nat) \<le> 122 then of_char c - 32 else of_char c)"
proof -
  have "(of_char c :: nat) \<le> 122 \<Longrightarrow> (of_char c - 32 :: nat) mod 256 = of_char c - 32"
    by (rule mod_less) arith
  then show ?thesis by (auto simp add: upperASCII_def Let_def)
qed

lemma of_char_toLowerCaseChar:
  "(of_char (toLowerCaseChar c) :: nat) =
     (if (65 \<le> (of_char c :: nat) \<and> (of_char c :: nat) \<le> 90) \<or>
         (192 \<le> (of_char c :: nat) \<and> (of_char c :: nat) \<le> 222 \<and> (of_char c :: nat) \<noteq> 215)
      then of_char c + 32 else of_char c)"
proof -
  have "(of_char c :: nat) \<le> 222 \<Longrightarrow> (of_char c + 32 :: nat) mod 256 = of_char c + 32"
    by (rule mod_less) arith
  then show ?thesis by (auto simp add: toLowerCaseChar_def Let_def)
qed

lemma matches_i_lower:
  assumes "(of_char p :: nat) < 128" "\<not> (65 \<le> (of_char p :: nat) \<and> (of_char p :: nat) \<le> 90)"
  shows "matches_i p c = (toLowerCaseChar c = p)"
proof -
  define m :: nat where "m = of_char p"
  define n :: nat where "n = of_char c"
  have "matches_i p c = ((of_char (upperASCII c) :: nat) = of_char (upperASCII p))"
    by (simp add: matches_i_def)
  also have "\<dots> = ((if 97 \<le> n \<and> n \<le> 122 then n - 32 else n) =
                     (if 97 \<le> m \<and> m \<le> 122 then m - 32 else m))"
    unfolding of_char_upperASCII m_def n_def ..
  also have "\<dots> = ((if (65 \<le> n \<and> n \<le> 90) \<or> (192 \<le> n \<and> n \<le> 222 \<and> n \<noteq> 215)
                       then n + 32 else n) = m)"
    using assms unfolding m_def[symmetric] by (auto split: if_splits)
  also have "\<dots> = ((of_char (toLowerCaseChar c) :: nat) = of_char p)"
    unfolding of_char_toLowerCaseChar m_def n_def ..
  also have "\<dots> = (toLowerCaseChar c = p)"
    by simp
  finally show ?thesis .
qed

lemma prefix_i_lower:
  assumes "list_all (\<lambda>p. (of_char p :: nat) < 128 \<and> \<not> (65 \<le> (of_char p :: nat) \<and> (of_char p :: nat) \<le> 90)) p"
  shows "prefix_i p s = (toLowerCase (take (length p) s) = p)"
  using assms
proof (induction p s rule: prefix_i.induct)
  case (3 p ps c cs)
  then show ?case by (auto simp add: toLowerCase_def matches_i_lower)
qed (auto simp add: toLowerCase_def)

lemma match_url_iff:
  "match_url s = (toLowerCase (take 7 s) = ''http://'' \<or> toLowerCase (take 8 s) = ''https://'')"
  unfolding match_url_def
  by (subst prefix_i_lower, simp)+ (simp add: eval_nat_numeral)

text \<open>
  C8. A line whose trimmed form is empty, starts with \<^verbatim>\<open>#\<close> or \<^verbatim>\<open>//\<close>, or begins with
  \<^verbatim>\<open>http://\<close> or \<^verbatim>\<open>https://\<close> in any letter case, makes the tokenizer return \<open>None\<close>,
  and the loop of \<open>extractAndCategorizeKeys\<close> adds no record for it.
\<close>

theorem tokenizer_rejects:
  assumes "trim line = [] \<or> startsWith (trim line) ''#'' \<or> startsWith (trim line) ''//'' \<or>
           toLowerCase (take 7 (trim line)) = ''http://'' \<or>
           toLowerCase (take 8 (trim line)) = ''https://''"
  shows "extractKeyValuePair line = None \<and> categorize_line rt line st = st"
proof -
  have "extractKeyValuePair line = None"
    using assms unfolding extractKeyValuePair_def Let_def match_url_iff by auto
  then show ?thesis by (simp add: categorize_line_def)
qed

theorem tokenizer_rejects_witness:
  "extractKeyValuePair ''https://example.com/path'' = None \<and>
   (\<forall>rt st. categorize_line rt ''https://example.com/path'' st = st)"
proof -
  have "toLowerCase (take 8 (trim ''https://example.com/path'')) = ''https://''"
    by (simp add: trim_def isWhiteSpace_def toLowerCase_def toLowerCaseChar_def)
  then show ?thesis using tokenizer_rejects[of "''https://example.com/path''"] by blast
qed

subsection \<open>LineTokenizer: splitting\<close>

lemma last_dropWhile: "dropWhile P xs \<noteq> [] \<Longrightarrow> last (dropWhile P xs) = last xs"
  by (induction xs) (auto split: if_splits)

lemma dropWhile_id: "xs = [] \<or> \<not> P (hd xs) \<Longrightarrow> dropWhile P xs = xs"
  by (cases xs) auto

lemma set_trim: "set (trim s) \<subseteq> set s"
  by (auto simp add: trim_def dest!: set_dropWhileD)

lemma trim_ends:
  assumes "trim s \<noteq> []"
  shows "\<not> isWhiteSpace (hd (trim s))" "\<not> isWhiteSpace (last (trim s))"
proof -
  let ?s = "dropWhile isWhiteSpace s"
  from assms have ne: "dropWhile isWhiteSpace (rev ?s) \<noteq> []" by (simp add: trim_def)
  then have "rev ?s \<noteq> []" by (metis dropWhile.simps(1))
  then have s: "?s \<noteq> []" by simp
  have "hd (trim s) = last (dropWhile isWhiteSpace (rev ?s))"
    using ne by (simp add: trim_def hd_rev)
  also have "\<dots> = hd ?s" using ne s by (simp add: last_dropWhile last_rev)
  finally show "\<not> isWhiteSpace (hd (trim s))" using s hd_dropWhile by metis
  have "last (trim s) = hd (dropWhile isWhiteSpace (rev ?s))"
    using ne by (simp add: trim_def last_rev)
  then show "\<not> isWhiteSpace (last (trim s))" using ne hd_dropWhile by metis
qed

lemma trim_id:
  assumes "s = [] \<or> (\<not> isWhiteSpace (hd s) \<and> \<not> isWhiteSpace (last s))"
  shows "trim s = s"
proof (cases "s = []")
  case True then show ?thesis by (simp add: trim_def)
next
  case False
  with assms have h: "\<not> isWhiteSpace (hd s)" and l: "\<not> isWhiteSpace (last s)" by auto
  have 1: "dropWhile isWhiteSpace s = s" using h by (simp add: dropWhile_id)
  have "dropWhile isWhiteSpace (rev s) = rev s"
    using l False by (intro dropWhile_id) (simp add: hd_rev)
  with 1 show ?thesis by (simp add: trim_def)
qed

lemma trim_idem: "trim (trim s) = trim s"
  using trim_ends[of s] by (intro trim_id) auto

lemma trim_prefix:
  assumes "s \<noteq> []" "\<not> isWhiteSpace (hd s)"
  shows "trim s \<noteq> []" "hd (trim s) = hd s" "\<exists>w. s = trim s @ w"
proof -
  have 1: "dropWhile isWhiteSpace s = s" using assms by (simp add: dropWhile_id)
  have "hd s \<in> set (rev s)" using assms by simp
  with assms have ne: "dropWhile isWhiteSpace (rev s) \<noteq> []"
    by (metis dropWhile_eq_Nil_conv)
  then show "trim s \<noteq> []" by (simp add: trim_def 1)
  have "hd (trim s) = last (dropWhile isWhiteSpace (rev s))"
    using ne by (simp add: trim_def 1 hd_rev)
  also have "\<dots> = hd s" using ne assms by (simp add: last_dropWhile last_rev)
  finally show "hd (trim s) = hd s" .
  have "rev s = takeWhile isWhiteSpace (rev s) @ dropWhile isWhiteSpace (rev s)" by simp
  then have "s = rev (dropWhile isWhiteSpace (rev s)) @ rev (takeWhile isWhiteSpace (rev s))"
    by (metis rev_append rev_rev_ident)
  then show "\<exists>w. s = trim s @ w" unfolding trim_def 1 by blast
qed

lemma set_substring: "set (substring s a b) \<subseteq> set s"
  unfolding substring_def by (meson set_take_subset set_drop_subset subset_trans)

lemma set_unquote: "set (unquote s) \<subseteq> set s"
  unfolding unquote_def using set_substring by auto

lemma unquote_id:
  assumes "CHR 0x22 \<notin> set v" "CHR 0x27 \<notin> set v"
  shows "unquote v = v"
proof (cases v)
  case Nil then show ?thesis by (simp add: unquote_def startsWith_def)
next
  case (Cons c cs)
  with assms show ?thesis by (auto simp add: unquote_def startsWith_def)
qed

lemma match_delimited_SomeD:
  assumes "match_delimited ex d s = Some (g1, g2)"
  shows "s = g1 @ d # g2" "g1 \<noteq> []" "\<forall>c\<in>set g1. \<not> ex c" "\<not> list_ex isLineTerminator g2"
    "ex d"
proof -
  let ?P = "\<lambda>c. \<not> ex c"
  from assms obtain c r where dw: "dropWhile ?P s = c # r"
    by (auto simp add: match_delimited_def Let_def split: list.splits)
  with assms have *: "g1 = takeWhile ?P s" "g2 = r" "c = d" "g1 \<noteq> []" "\<not> list_ex isLineTerminator r"
    by (auto simp add: match_delimited_def Let_def split: if_splits)
  have "s = takeWhile ?P s @ dropWhile ?P s" by simp
  with dw * show "s = g1 @ d # g2" by simp
  show "g1 \<noteq> []" by fact
  show "\<forall>c\<in>set g1. \<not> ex c" using * by (auto dest: set_takeWhileD)
  show "\<not> list_ex isLineTerminator g2" using * by simp
  have "\<not> ?P (hd (dropWhile ?P s))" using dw by (metis hd_dropWhile list.distinct(1))
  with dw * show "ex d" by simp
qed

lemma match_delimited_SomeI:
  assumes "s = g1 @ d # g2" "g1 \<noteq> []" "\<forall>c\<in>set g1. \<not> ex c" "ex d"
    "\<not> list_ex isLineTerminator g2"
  shows "match_delimited ex d s = Some (g1, g2)"
proof -
  let ?P = "\<lambda>c. \<not> ex c"
  have "takeWhile ?P s = g1" using assms by (simp add: takeWhile_append2)
  moreover have "dropWhile ?P s = d # g2" using assms by (simp add: dropWhile_append2)
  ultimately show ?thesis using assms by (simp add: match_delimited_def)
qed

lemma match_delimited_other:
  assumes "s = g1 @ d' # g2" "\<forall>c\<in>set g1. \<not> ex c" "ex d'" "d' \<noteq> d"
  shows "match_delimited ex d s = None"
proof -
  let ?P = "\<lambda>c. \<not> ex c"
  have "dropWhile ?P s = d' # g2" using assms by (simp add: dropWhile_append2)
  then show ?thesis using assms by (simp add: match_delimited_def)
qed

lemma prefix_i_split:
  "prefix_i p s \<Longrightarrow> \<exists>a b. s = a @ b \<and> list_all2 matches_i p a"
proof (induction p s rule: prefix_i.induct)
  case (3 p ps c cs)
  then obtain a b where "cs = a @ b" "list_all2 matches_i ps a" by auto
  with 3 have "c # cs = (c # a) @ b \<and> list_all2 matches_i (p # ps) (c # a)" by simp
  then show ?case by blast
qed auto

lemma toLowerCaseChar_colon: "toLowerCaseChar c = CHR '':'' \<Longrightarrow> c = CHR '':''"
proof -
  assume a: "toLowerCaseChar c = CHR '':''"
  have "(of_char (toLowerCaseChar c) :: nat) = 58" by (simp add: a)
  then have "(of_char c :: nat) = 58"
    unfolding of_char_toLowerCaseChar by (auto split: if_splits)
  then have "(of_char c :: nat) = of_char (CHR '':'')" by simp
  then show ?thesis by (simp only: of_char_eq_iff)
qed

lemma toLowerCaseChar_delims:
  "toLowerCaseChar (CHR ''='') = CHR ''=''" "toLowerCaseChar (CHR '':'') = CHR '':''"
  by (simp_all add: toLowerCaseChar_def)

lemma match_url_first_colon:
  assumes "match_url s"
  shows "\<exists>l r. s = l @ CHR '':'' # r \<and> (\<forall>c\<in>set l. c \<noteq> CHR ''='' \<and> c \<noteq> CHR '':'')"
proof -
  from assms consider "prefix_i ''http://'' s" | "prefix_i ''https://'' s"
    by (auto simp add: match_url_def)
  then show ?thesis
  proof cases
    case 1
    then obtain a b where s: "s = a @ b" and m: "list_all2 matches_i ''http://'' a"
      using prefix_i_split by blast
    from m obtain c0 c1 c2 c3 c4 t where a: "a = c0 # c1 # c2 # c3 # c4 # t"
      and ms: "matches_i (CHR ''h'') c0" "matches_i (CHR ''t'') c1" "matches_i (CHR ''t'') c2"
        "matches_i (CHR ''p'') c3" "matches_i (CHR '':'') c4"
      by (auto simp add: list_all2_Cons1)
    from ms have l: "toLowerCaseChar c0 = CHR ''h''" "toLowerCaseChar c1 = CHR ''t''"
      "toLowerCaseChar c2 = CHR ''t''" "toLowerCaseChar c3 = CHR ''p''" "toLowerCaseChar c4 = CHR '':''"
      by (simp_all add: matches_i_lower)
    then have "c4 = CHR '':''" by (simp add: toLowerCaseChar_colon)
    moreover have "\<forall>c\<in>set [c0, c1, c2, c3]. c \<noteq> CHR ''='' \<and> c \<noteq> CHR '':''"
      using l toLowerCaseChar_delims by auto
    moreover have "s = [c0, c1, c2, c3] @ c4 # (t @ b)" using s a by simp
    ultimately show ?thesis by blast
  next
    case 2
    then obtain a b where s: "s = a @ b" and m: "list_all2 matches_i ''https://'' a"
      using prefix_i_split by blast
    from m obtain c0 c1 c2 c3 c4 c5 t where a: "a = c0 # c1 # c2 # c3 # c4 # c5 # t"
      and ms: "matches_i (CHR ''h'') c0" "matches_i (CHR ''t'') c1" "matches_i (CHR ''t'') c2"
        "matches_i (CHR ''p'') c3" "matches_i (CHR ''s'') c4" "matches_i (CHR '':'') c5"
      by (auto simp add: list_all2_Cons1)
    from ms have l: "toLowerCaseChar c0 = CHR ''h''" "toLowerCaseChar c1 = CHR ''t''"
      "toLowerCaseChar c2 = CHR ''t''" "toLowerCaseChar c3 = CHR ''p''"
      "toLowerCaseChar c4 = CHR ''s''" "toLowerCaseChar c5 = CHR '':''"
      by (simp_all add: matches_i_lower)
    then have "c5 = CHR '':''" by (simp add: toLowerCaseChar_colon)
    moreover have "\<forall>c\<in>set [c0, c1, c2, c3, c4]. c \<noteq> CHR ''='' \<and> c \<noteq> CHR '':''"
      using l toLowerCaseChar_delims by auto
    moreover have "s = [c0, c1, c2, c3, c4] @ c5 # (t @ b)" using s a by simp
    ultimately show ?thesis by blast
  qed
qed

lemma match_equals_first:
  assumes "s = l @ d # r" "CHR ''='' \<notin> set l" "CHR '':'' \<notin> set l"
  shows "d = CHR ''='' \<Longrightarrow> l \<noteq> [] \<Longrightarrow> \<not> list_ex isLineTerminator r \<Longrightarrow> match_equals s = Some (l, r)"
    and "d = CHR '':'' \<Longrightarrow> match_equals s = None"
    and "d = CHR ''='' \<Longrightarrow> l = [] \<Longrightarrow> match_equals s = None"
proof -
  show "d = CHR ''='' \<Longrightarrow> l \<noteq> [] \<Longrightarrow> \<not> list_ex isLineTerminator r \<Longrightarrow> match_equals s = Some (l, r)"
    unfolding match_equals_def using assms by (intro match_delimited_SomeI) auto
  show "d = CHR '':'' \<Longrightarrow> match_equals s = None"
    unfolding match_equals_def using assms by (intro match_delimited_other[of s l d r]) auto
  show "d = CHR ''='' \<Longrightarrow> l = [] \<Longrightarrow> match_equals s = None"
    using assms by (simp add: match_equals_def match_delimited_def)
qed

lemma match_colon_first:
  assumes "s = l @ CHR '':'' # r" "CHR '':'' \<notin> set l" "l \<noteq> []" "\<not> list_ex isLineTerminator r"
  shows "match_colon s = Some (l, r)"
  unfolding match_colon_def using assms by (intro match_delimited_SomeI) auto

text \<open>
  C3, as the code has it. Let the trimmed line pass the guards and let its first delimiter
  (the first \<^verbatim>\<open>=\<close> or \<^verbatim>\<open>:\<close>) stand after a non-empty left side and before a right side
  with no line terminator. When that delimiter is \<^verbatim>\<open>=\<close>, the key is the left side trimmed
  and the value is the right side trimmed, with one layer of matching quotes removed. When it
  is \<^verbatim>\<open>:\<close>, the colon form is used although an \<^verbatim>\<open>=\<close> may follow later in the line: the
  pair is the same, unless the key is \<^verbatim>\<open>http\<close> or \<^verbatim>\<open>https\<close> in any letter case or the value
  starts with \<^verbatim>\<open>//\<close>.
\<close>

theorem tokenizer_first_delimiter:
  assumes t: "trim line = l @ d # r"
    and l: "l \<noteq> []" "CHR ''='' \<notin> set l" "CHR '':'' \<notin> set l"
    and r: "\<not> list_ex isLineTerminator r"
    and nr: "\<not> startsWith (trim line) ''#''" "\<not> startsWith (trim line) ''//''"
      "toLowerCase (take 7 (trim line)) \<noteq> ''http://''"
      "toLowerCase (take 8 (trim line)) \<noteq> ''https://''"
  shows "(d = CHR ''='' \<longrightarrow> extractKeyValuePair line = Some (trim l, unquote (trim r))) \<and>
         (d = CHR '':'' \<longrightarrow> extractKeyValuePair line =
            (if toLowerCase (trim l) = ''http'' \<or> toLowerCase (trim l) = ''https'' \<or>
                startsWith (trim r) ''//''
             then None else Some (trim l, unquote (trim r))))"
proof -
  have g: "\<not> (trim line = [] \<or> startsWith (trim line) ''#'' \<or> startsWith (trim line) ''//'')"
    "\<not> match_url (trim line)"
    using t nr by (auto simp add: match_url_iff)
  show ?thesis
  proof (intro conjI impI)
    assume d: "d = CHR ''=''"
    have "match_equals (trim line) = Some (l, r)"
      using match_equals_first(1)[OF t l(2,3) d l(1) r] .
    then show "extractKeyValuePair line = Some (trim l, unquote (trim r))"
      using g by (simp add: extractKeyValuePair_def Let_def)
  next
    assume d: "d = CHR '':''"
    have 1: "match_equals (trim line) = None"
      using match_equals_first(2)[OF t l(2,3) d] .
    have 2: "match_colon (trim line) = Some (l, r)"
      using match_colon_first[of "trim line" l r] t d l r by simp
    show "extractKeyValuePair line =
            (if toLowerCase (trim l) = ''http'' \<or> toLowerCase (trim l) = ''https'' \<or>
                startsWith (trim r) ''//''
             then None else Some (trim l, unquote (trim r)))"
      using g 1 2 by (simp add: extractKeyValuePair_def Let_def)
  qed
qed

theorem tokenizer_first_delimiter_witness:
  "extractKeyValuePair ''KEY = v'' = Some (''KEY'', ''v'') \<and>
   extractKeyValuePair ''KEY : v'' = Some (''KEY'', ''v'')"
  using tokenizer_first_delimiter[of "''KEY = v''" "''KEY ''" "CHR ''=''" "'' v''"]
    tokenizer_first_delimiter[of "''KEY : v''" "''KEY ''" "CHR '':''" "'' v''"]
  by (simp add: trim_def isWhiteSpace_def isLineTerminator_def startsWith_def endsWith_def
      toLowerCase_def toLowerCaseChar_def unquote_def)

text \<open>
  The claim as written fails on a line whose first \<^verbatim>\<open>:\<close> comes before its first \<^verbatim>\<open>=\<close>:
  the line contains an \<^verbatim>\<open>=\<close>, yet it is split at the \<^verbatim>\<open>:\<close>.
\<close>

theorem tokenizer_first_equals_counterexample:
  "extractKeyValuePair ''a:b=c'' = Some (''a'', ''b=c'')"
  by code_simp

lemma extractKeyValuePair_SomeD:
  assumes "extractKeyValuePair line = Some (k, v)"
  shows "\<exists>g1 g2 d. trim line = g1 @ d # g2 \<and> g1 \<noteq> [] \<and> CHR '':'' \<notin> set g1 \<and>
           k = trim g1 \<and> v = unquote (trim g2) \<and> \<not> list_ex isLineTerminator g2 \<and>
           \<not> startsWith (trim line) ''#'' \<and> \<not> startsWith (trim line) ''//'' \<and>
           \<not> match_url (trim line)"
proof -
  let ?t = "trim line"
  from assms have g: "?t \<noteq> []" "\<not> startsWith ?t ''#''" "\<not> startsWith ?t ''//''" "\<not> match_url ?t"
    by (auto simp add: extractKeyValuePair_def Let_def split: if_splits)
  show ?thesis
  proof (cases "match_equals ?t")
    case (Some p)
    obtain g1 g2 where p: "p = (g1, g2)" by (cases p)
    from assms g Some p have kv: "k = trim g1" "v = unquote (trim g2)"
      by (auto simp add: extractKeyValuePair_def Let_def)
    from match_delimited_SomeD[OF Some[unfolded p match_equals_def]]
    have "?t = g1 @ CHR ''='' # g2" "g1 \<noteq> []" "CHR '':'' \<notin> set g1" "\<not> list_ex isLineTerminator g2"
      by auto
    with kv g show ?thesis by blast
  next
    case None
    with assms g obtain g1 g2 where c: "match_colon ?t = Some (g1, g2)"
      and kv: "k = trim g1" "v = unquote (trim g2)"
      by (auto simp add: extractKeyValuePair_def Let_def split: option.splits if_splits)
    from match_delimited_SomeD[OF c[unfolded match_colon_def]]
    have "?t = g1 @ CHR '':'' # g2" "g1 \<noteq> []" "CHR '':'' \<notin> set g1" "\<not> list_ex isLineTerminator g2"
      by auto
    with kv g show ?thesis by blast
  qed
qed

text \<open>
  C2, as the code has it. A line of the form \<^verbatim>\<open>=VALUE\<close> never yields an empty key: the
  tokenizer returns \<open>None\<close> when \<^verbatim>\<open>VALUE\<close> has no \<^verbatim>\<open>:\<close>, and a pair it returns otherwise
  has a key that starts with the \<^verbatim>\<open>=\<close>.
\<close>

theorem tokenizer_empty_left_side:
  assumes t: "trim line = CHR ''='' # rest"
  shows "(CHR '':'' \<notin> set rest \<longrightarrow> extractKeyValuePair line = None) \<and>
         (case extractKeyValuePair line of
            None \<Rightarrow> True
          | Some (k, v) \<Rightarrow> k \<noteq> [] \<and> hd k = CHR ''='')"
proof (intro conjI impI)
  have e: "match_equals (trim line) = None"
    using t by (simp add: match_equals_def match_delimited_def)
  assume "CHR '':'' \<notin> set rest"
  then have "dropWhile (\<lambda>c. c \<noteq> CHR '':'') (trim line) = []"
    using t by auto
  then have "match_colon (trim line) = None"
    unfolding match_colon_def match_delimited_def by (simp del: dropWhile_eq_Nil_conv)
  with e show "extractKeyValuePair line = None"
    by (simp add: extractKeyValuePair_def Let_def)
next
  show "case extractKeyValuePair line of None \<Rightarrow> True
        | Some (k, v) \<Rightarrow> k \<noteq> [] \<and> hd k = CHR ''=''"
  proof (cases "extractKeyValuePair line")
    case None then show ?thesis by simp
  next
    case (Some p)
    obtain k v where p: "p = (k, v)" by (cases p)
    from extractKeyValuePair_SomeD[OF Some[unfolded p]]
    obtain g1 g2 d where g: "trim line = g1 @ d # g2" "g1 \<noteq> []" "k = trim g1" by blast
    with t have "hd g1 = CHR ''=''" by (cases g1) auto
    then have "\<not> isWhiteSpace (hd g1)" by (simp add: isWhiteSpace_def)
    from trim_prefix(1,2)[OF g(2) this] \<open>hd g1 = CHR ''=''\<close>
    have "trim g1 \<noteq> []" "hd (trim g1) = CHR ''=''" by simp_all
    then show ?thesis unfolding Some p g(3) by simp
  qed
qed

theorem tokenizer_empty_left_side_witness:
  "extractKeyValuePair ''=KEY'' = None \<and> extractKeyValuePair ''=a:b'' = Some (''=a'', ''b'')"
proof
  have "trim ''=KEY'' = CHR ''='' # ''KEY''" by (simp add: trim_def isWhiteSpace_def)
  from tokenizer_empty_left_side[OF this] show "extractKeyValuePair ''=KEY'' = None" by simp
  have "trim ''=a:b'' = CHR ''='' # ''a:b''" by (simp add: trim_def isWhiteSpace_def)
  from tokenizer_empty_left_side[OF this]
  have "case extractKeyValuePair ''=a:b'' of None \<Rightarrow> True | Some (k, v) \<Rightarrow> k \<noteq> [] \<and> hd k = CHR ''=''"
    by simp
  moreover have "extractKeyValuePair ''=a:b'' = Some (''=a'', ''b'')" by code_simp
  ultimately show "extractKeyValuePair ''=a:b'' = Some (''=a'', ''b'')" by simp
qed

text \<open>
  The claim as written fails on its own example: \<^verbatim>\<open>=VALUE\<close> is rejected by the tokenizer,
  as the test \<^verbatim>\<open>testKeyValueExtraction\<close> of the repository expects.
\<close>

theorem tokenizer_empty_key_counterexample:
  "extractKeyValuePair ''=VALUE'' = None"
  by code_simp

lemma startsWith_hash: "s \<noteq> [] \<Longrightarrow> startsWith s ''#'' = (hd s = CHR ''#'')"
  by (cases s) (auto simp add: startsWith_def)

text \<open>
  C7, as the code has it. If a line tokenizes to the pair (key, value), the key has no
  \<^verbatim>\<open>=\<close>, and the value has no \<^verbatim>\<open>=\<close>, no quote and no white space at either end, then
  \<^verbatim>\<open>key + "=" + value\<close> tokenizes to the same pair.
\<close>

theorem tokenizer_rejoin:
  assumes kv: "extractKeyValuePair line = Some (k, v)"
    and k: "CHR ''='' \<notin> set k"
    and v: "CHR ''='' \<notin> set v" "CHR 0x22 \<notin> set v" "CHR 0x27 \<notin> set v" "trim v = v"
  shows "extractKeyValuePair (k @ ''='' @ v) = Some (k, v)"
proof -
  let ?t = "trim line"
  let ?s = "k @ CHR ''='' # v"
  from extractKeyValuePair_SomeD[OF kv]
  obtain g1 g2 d where t: "?t = g1 @ d # g2" and g1: "g1 \<noteq> []" and g1c: "CHR '':'' \<notin> set g1"
    and kg: "k = trim g1" and vg: "v = unquote (trim g2)" and g2: "\<not> list_ex isLineTerminator g2"
    and nr: "\<not> startsWith ?t ''#''" "\<not> startsWith ?t ''//''" "\<not> match_url ?t"
    by blast
  have tne: "?t \<noteq> []" unfolding t by simp
  have "hd g1 = hd ?t" unfolding t using g1 by (cases g1) simp_all
  then have hg1: "\<not> isWhiteSpace (hd g1)" using trim_ends(1)[OF tne] by simp
  have kne: "k \<noteq> []" and hk: "hd k = hd g1"
    unfolding kg using trim_prefix(1,2)[OF g1 hg1] by blast+
  from trim_prefix(3)[OF g1 hg1] obtain w where "g1 = trim g1 @ w" by blast
  then have g1k: "g1 = k @ w" by (simp only: kg)
  have tk: "?t = k @ (w @ d # g2)" by (subst t, subst g1k) simp
  have "set k \<subseteq> set g1" unfolding kg by (rule set_trim)
  then have kc: "CHR '':'' \<notin> set k" using g1c by blast
  have "set v \<subseteq> set g2" unfolding vg using set_unquote[of "trim g2"] set_trim[of g2] by blast
  then have vlt: "\<not> list_ex isLineTerminator v"
    using g2 by (auto simp add: list_ex_iff)
  \<comment> \<open>the re-joined line is already trimmed\<close>
  have hs: "\<not> isWhiteSpace (hd ?s)" using kne hk hg1 by (cases k) auto
  have ls: "\<not> isWhiteSpace (last ?s)"
  proof (cases "v = []")
    case True then show ?thesis by (simp add: isWhiteSpace_def)
  next
    case False
    then have "trim v \<noteq> []" using v by simp
    from trim_ends(2)[OF this] False v show ?thesis by simp
  qed
  have ts: "trim ?s = ?s" using hs ls by (intro trim_id) simp
  \<comment> \<open>it passes the three guards\<close>
  have c1: "\<not> startsWith ?s ''#''"
  proof -
    have "startsWith ?s ''#'' = (hd ?s = CHR ''#'')" by (intro startsWith_hash) simp
    also have "\<dots> = (hd ?t = CHR ''#'')" using kne tk by (cases k) auto
    also have "\<dots> = startsWith ?t ''#''" using tne by (simp add: startsWith_hash)
    finally show ?thesis using nr by simp
  qed
  have c2: "\<not> startsWith ?s ''//''"
  proof
    assume a: "startsWith ?s ''//''"
    show False
    proof (cases k)
      case Nil with kne show ?thesis by simp
    next
      case (Cons a1 k1)
      show ?thesis
      proof (cases k1)
        case Nil with a Cons show ?thesis by (simp add: startsWith_def)
      next
        case (Cons a2 k2)
        with a \<open>k = a1 # k1\<close> have "a1 = CHR ''/''" "a2 = CHR ''/''" by (auto simp add: startsWith_def)
        with tk Cons \<open>k = a1 # k1\<close> have "startsWith ?t ''//''" by (simp add: startsWith_def)
        with nr show ?thesis by simp
      qed
    qed
  qed
  have c3: "\<not> match_url ?s"
  proof
    assume "match_url ?s"
    from match_url_first_colon[OF this]
    obtain l r where lr: "?s = l @ CHR '':'' # r" "\<forall>c\<in>set l. c \<noteq> CHR ''='' \<and> c \<noteq> CHR '':''"
      by blast
    let ?P = "\<lambda>c. c \<noteq> CHR ''='' \<and> c \<noteq> CHR '':''"
    have pk: "\<And>x. x \<in> set k \<Longrightarrow> ?P x" using k kc by auto
    have "dropWhile ?P ?s = dropWhile ?P (CHR ''='' # v)" by (rule dropWhile_append2) (rule pk)
    then have "dropWhile ?P ?s = CHR ''='' # v" by simp
    moreover have "dropWhile ?P (l @ CHR '':'' # r) = dropWhile ?P (CHR '':'' # r)"
      by (rule dropWhile_append2) (use lr(2) in blast)
    then have "dropWhile ?P (l @ CHR '':'' # r) = CHR '':'' # r" by simp
    ultimately show False using lr(1) by simp
  qed
  have m: "match_equals ?s = Some (k, v)"
    using match_equals_first(1)[of ?s k "CHR ''=''" v] k kc kne vlt by simp
  have "extractKeyValuePair ?s = Some (trim k, unquote (trim v))"
    using ts c1 c2 c3 m by (simp add: extractKeyValuePair_def Let_def)
  also have "trim k = k" unfolding kg by (rule trim_idem)
  also have "unquote (trim v) = v" using v by (simp add: unquote_id)
  finally show ?thesis by simp
qed

theorem tokenizer_rejoin_witness:
  "extractKeyValuePair ''KEY : value'' = Some (''KEY'', ''value'') \<and>
   extractKeyValuePair (''KEY'' @ ''='' @ ''value'') = Some (''KEY'', ''value'')"
proof -
  have 1: "extractKeyValuePair ''KEY : value'' = Some (''KEY'', ''value'')" by code_simp
  have 2: "trim ''value'' = ''value''" by (simp add: trim_def isWhiteSpace_def)
  from tokenizer_rejoin[OF 1 _ _ _ _ 2] 1 show ?thesis by simp
qed

text \<open>
  The claim as written fails when the quotes of the line enclose white space: the value of
  the pair has no \<^verbatim>\<open>=\<close> and no quote, yet the re-joined line loses the spaces.
\<close>

theorem tokenizer_rejoin_counterexample:
  "extractKeyValuePair (''a='' @ [CHR 0x22] @ '' b '' @ [CHR 0x22]) = Some (''a'', '' b '') \<and>
   extractKeyValuePair (''a'' @ ''='' @ '' b '') = Some (''a'', ''b'')"
  by code_simp

subsection \<open>JSON.parse: the bound on the recursion\<close>

text \<open>
  Every call of the parser that goes through has consumed input, so the bound that
  \<open>JSON_parse\<close> sets is never reached: the adapter returns for every content but a
  well-formed JSON text with an escape beyond the modelled characters.
\<close>

lemma reading_beyond: "reading (beyond m) = reading m"
  by (cases m) (simp_all add: beyond_def)

lemma beyond_Exhausted: "(beyond m = Exhausted) = (m = Exhausted)"
  by (cases m) (simp_all add: beyond_def)

lemma beyond_Parsed: "beyond m \<noteq> Parsed x"
  by (cases m) (simp_all add: beyond_def)

lemma beyond_Malformed: "(beyond m = Malformed) = (m = Malformed)"
  by (cases m) (simp_all add: beyond_def)

lemma reading_bind:
  "(reading (bind_parsed m f) = Some y) = (\<exists>x. reading m = Some x \<and> reading (f x) = Some y)"
  by (cases m) (simp_all add: reading_beyond)

lemma reading_prepend:
  "(reading (prepend c m) = Some (x, r)) = (\<exists>x'. reading m = Some (x', r) \<and> x = c # x')"
  by (cases m) (auto simp add: prepend_def beyond_def)

lemma reading_escaped:
  "(reading (escaped n m) = Some (x, r)) = (\<exists>x'. reading m = Some (x', r) \<and> x = char_of n # x')"
  by (simp add: escaped_def reading_beyond reading_prepend)

lemma bind_parsed_Parsed:
  "(bind_parsed m f = Parsed y) = (\<exists>x. m = Parsed x \<and> f x = Parsed y)"
  by (cases m) (simp_all add: beyond_Parsed)

lemma bind_parsed_Exhausted:
  "(bind_parsed m f = Exhausted) = (m = Exhausted \<or> (\<exists>x. reading m = Some x \<and> f x = Exhausted))"
  by (cases m) (simp_all add: beyond_Exhausted)

lemma prepend_Parsed: "(prepend c m = Parsed (x, r)) = (\<exists>x'. m = Parsed (x', r) \<and> x = c # x')"
  by (cases m) (auto simp add: prepend_def beyond_def)

lemma prepend_Exhausted: "(prepend c m = Exhausted) = (m = Exhausted)"
  by (cases m) (auto simp add: prepend_def beyond_def)

lemma escaped_Exhausted: "(escaped n m = Exhausted) = (m = Exhausted)"
  by (simp add: escaped_def beyond_Exhausted prepend_Exhausted)

lemma parse_chars_shorter: "reading (parse_chars s) = Some (x, r) \<Longrightarrow> length r < length s"
proof (induction s arbitrary: x rule: parse_chars.induct)
  case 1 then show ?case by simp
next
  case (2 c cs)
  show ?case
  proof (cases "c = CHR 0x22")
    case True with "2.prems" show ?thesis by simp
  next
    case q: False
    show ?thesis
    proof (cases "c = CHR 0x5C")
      case False
      with q "2.prems" obtain x' where "reading (parse_chars cs) = Some (x', r)"
        by (auto simp add: reading_prepend split: if_splits)
      with "2.IH"(3)[OF q False] q False "2.prems" show ?thesis
        by (fastforce split: if_splits)
    next
      case True
      with q "2.prems" obtain e cs' where cs: "cs = e # cs'" by (cases cs) auto
      show ?thesis
      proof (cases "e = CHR ''u''")
        case u: True
        with q True cs "2.prems" obtain n x' where h: "hex4 cs' = Some n"
          and p: "reading (parse_chars (drop 4 cs')) = Some (x', r)"
          by (auto simp add: reading_escaped split: option.splits)
        from "2.IH"(1)[OF q True cs u h p]
        have "length r < length (drop 4 cs')" .
        then show ?thesis unfolding cs by simp
      next
        case False
        with q True cs "2.prems" obtain y x' where h: "unescape e = Some y"
          and p: "reading (parse_chars cs') = Some (x', r)"
          by (auto simp add: reading_prepend split: option.splits)
        from "2.IH"(2)[OF q True cs False h p]
        show ?thesis unfolding cs by simp
      qed
    qed
  qed
qed

lemma parse_chars_not_Exhausted: "parse_chars s \<noteq> Exhausted"
proof (induction s rule: parse_chars.induct)
  case 1 then show ?case by simp
next
  case (2 c cs)
  then show ?case
    by (auto simp add: prepend_Exhausted escaped_Exhausted split: list.splits option.splits)
qed

lemma length_skip_ws: "length (skip_ws s) \<le> length s"
  unfolding skip_ws_def by (rule length_dropWhile_le)

lemma skip_ws_Cons: "skip_ws s = c # cs \<Longrightarrow> length cs < length s"
  using length_skip_ws[of s] by simp

lemma lex_literal_shorter:
  "reading (lex_literal word v s) = Some (x, r) \<Longrightarrow> word \<noteq> [] \<Longrightarrow> length r < length s"
proof -
  assume a: "reading (lex_literal word v s) = Some (x, r)" and w: "word \<noteq> []"
  then have t: "take (length word) s = word" and r: "r = drop (length word) s"
    by (auto simp add: lex_literal_def startsWith_def split: if_splits)
  have "length (take (length word) s) \<le> length s" by simp
  then have "length word \<le> length s" unfolding t .
  with w r show ?thesis by (cases word) auto
qed

lemma lex_literal_not_Exhausted: "lex_literal word v s \<noteq> Exhausted"
  by (simp add: lex_literal_def)

lemma lex_digits_le: "lex_digits s = Some (d, r) \<Longrightarrow> length r \<le> length s"
  by (auto simp add: lex_digits_def length_dropWhile_le split: if_splits)

lemma lex_int_shorter: "lex_int s = Some (i, r) \<Longrightarrow> length r < length s"
  by (cases s) (auto simp add: lex_int_def length_dropWhile_le less_Suc_eq_le split: if_splits)

lemma lex_frac_le: "lex_frac s = Some (f, r) \<Longrightarrow> length r \<le> length s"
  by (cases s) (auto simp add: lex_frac_def split: if_splits option.splits dest!: lex_digits_le)

lemma lex_exp_le: "lex_exp s = Some (x, r) \<Longrightarrow> length r \<le> length s"
  by (cases s) (auto simp add: lex_exp_def split: if_splits option.splits list.splits dest!: lex_digits_le)

lemma lex_number_shorter: "lex_number s = Some (l, r) \<Longrightarrow> length r < length s"
proof -
  assume a: "lex_number s = Some (l, r)"
  define sign where "sign = (if s \<noteq> [] \<and> hd s = CHR ''-'' then ''-'' else [])"
  from a obtain i s2 f s3 x where i: "lex_int (drop (length sign) s) = Some (i, s2)"
    and f: "lex_frac s2 = Some (f, s3)" and x: "lex_exp s3 = Some (x, r)"
    unfolding lex_number_def Let_def sign_def[symmetric]
    by (auto split: option.splits)
  from lex_int_shorter[OF i] have "length s2 < length s" by simp
  with lex_frac_le[OF f] lex_exp_le[OF x] show ?thesis by simp
qed

lemma skip_ws_Cons_le: "skip_ws s = c # cs \<Longrightarrow> length (c # cs) \<le> length s"
  using length_skip_ws[of s] by simp

lemma parse_shorter:
  "(reading (parse_value n s) = Some (v, r) \<longrightarrow> length r < length s) \<and>
   (reading (parse_elements n s) = Some (vs, r) \<longrightarrow> length r < length s) \<and>
   (reading (parse_members n s) = Some (ms, r) \<longrightarrow> length r < length s)"
proof (induction n arbitrary: s v vs ms r)
  case 0 show ?case by simp
next
  case (Suc n)
  have V: "reading (parse_value n s) = Some (v, r) \<Longrightarrow> length r < length s" for s v r
    using Suc by blast
  have E: "reading (parse_elements n s) = Some (vs, r) \<Longrightarrow> length r < length s" for s vs r
    using Suc by blast
  have M: "reading (parse_members n s) = Some (ms, r) \<Longrightarrow> length r < length s" for s ms r
    using Suc by blast
  have 1: "length r < length s" if a: "reading (parse_value (Suc n) s) = Some (v, r)"
  proof -
    from a obtain c cs where sk: "skip_ws s = c # cs" by (cases "skip_ws s") (auto simp add: reading_bind)
    note l = skip_ws_Cons[OF sk] skip_ws_Cons_le[OF sk]
    consider (obj) "c = CHR ''{''" | (arr) "c = CHR ''[''" | (str) "c = CHR 0x22"
      | (lit) w x where "reading (lex_literal w x (c # cs)) = Some (v, r)" "w \<noteq> []"
      | (num) l where "lex_number (c # cs) = Some (l, r)"
      using a sk by (auto simp add: reading_bind split: if_splits option.splits)
    then show ?thesis
    proof cases
      case obj
      with a sk obtain c' cs' where sk': "skip_ws cs = c' # cs'" by (cases "skip_ws cs") (auto simp add: reading_bind)
      show ?thesis
      proof (cases "c' = CHR ''}''")
        case True with a sk obj sk' skip_ws_Cons[OF sk'] l show ?thesis by simp
      next
        case False
        with a sk obj sk' obtain ms where "reading (parse_members n cs) = Some (ms, r)"
          by (auto simp add: reading_bind)
        from M[OF this] l show ?thesis by simp
      qed
    next
      case arr
      with a sk obtain c' cs' where sk': "skip_ws cs = c' # cs'" by (cases "skip_ws cs") (auto simp add: reading_bind)
      show ?thesis
      proof (cases "c' = CHR '']''")
        case True with a sk arr sk' skip_ws_Cons[OF sk'] l show ?thesis by simp
      next
        case False
        with a sk arr sk' obtain vs where "reading (parse_elements n cs) = Some (vs, r)"
          by (auto simp add: reading_bind)
        from E[OF this] l show ?thesis by simp
      qed
    next
      case str
      with a sk obtain x where "reading (parse_chars cs) = Some (x, r)"
        by (auto simp add: reading_bind)
      from parse_chars_shorter[OF this] l show ?thesis by simp
    next
      case lit
      from lex_literal_shorter[OF lit] l show ?thesis by simp
    next
      case num
      from lex_number_shorter[OF num] l show ?thesis by simp
    qed
  qed
  have 2: "length r < length s" if a: "reading (parse_elements (Suc n) s) = Some (vs, r)"
  proof -
    from a obtain v rest where v: "reading (parse_value n s) = Some (v, rest)"
      by (auto simp add: reading_bind)
    with a obtain c cs where sk: "skip_ws rest = c # cs"
      by (cases "skip_ws rest") (auto simp add: reading_bind)
    note l = V[OF v] skip_ws_Cons[OF sk]
    show ?thesis
    proof (cases "c = CHR '',''")
      case True
      with a v sk obtain vs' where "reading (parse_elements n cs) = Some (vs', r)"
        by (auto simp add: reading_bind)
      from E[OF this] l show ?thesis by simp
    next
      case False
      with a v sk have "r = cs" by (auto simp add: reading_bind split: if_splits)
      with l show ?thesis by simp
    qed
  qed
  have 3: "length r < length s" if a: "reading (parse_members (Suc n) s) = Some (ms, r)"
  proof -
    from a obtain q s1 where sk: "skip_ws s = q # s1" by (cases "skip_ws s") (auto simp add: reading_bind)
    with a have q: "q = CHR 0x22" by (auto simp add: reading_bind split: if_splits)
    from a sk q obtain k s2 where k: "reading (parse_chars s1) = Some (k, s2)"
      by (auto simp add: reading_bind)
    from a sk q k obtain colon s3 where sk2: "skip_ws s2 = colon # s3"
      by (cases "skip_ws s2") (auto simp add: reading_bind)
    with a sk q k have colon: "colon = CHR '':''" by (auto simp add: reading_bind split: if_splits)
    from a sk q k sk2 colon obtain v s4 where v: "reading (parse_value n s3) = Some (v, s4)"
      by (auto simp add: reading_bind)
    from a sk q k sk2 colon v obtain c cs where sk4: "skip_ws s4 = c # cs"
      by (cases "skip_ws s4") (auto simp add: reading_bind)
    note l = skip_ws_Cons[OF sk] parse_chars_shorter[OF k] skip_ws_Cons[OF sk2] V[OF v]
      skip_ws_Cons[OF sk4]
    show ?thesis
    proof (cases "c = CHR '',''")
      case True
      with a sk q k sk2 colon v sk4 obtain ms' where "reading (parse_members n cs) = Some (ms', r)"
        by (auto simp add: reading_bind)
      from M[OF this] l show ?thesis by simp
    next
      case False
      with a sk q k sk2 colon v sk4 have "r = cs" by (auto simp add: reading_bind split: if_splits)
      with l show ?thesis by simp
    qed
  qed
  from 1 2 3 show ?case by blast
qed

lemma parse_not_Exhausted:
  "(2 * length s < n \<longrightarrow> parse_value n s \<noteq> Exhausted) \<and>
   (2 * length s + 1 < n \<longrightarrow> parse_elements n s \<noteq> Exhausted) \<and>
   (2 * length s + 1 < n \<longrightarrow> parse_members n s \<noteq> Exhausted)"
proof (induction n arbitrary: s)
  case 0 show ?case by simp
next
  case (Suc n)
  have V: "2 * length s < n \<Longrightarrow> parse_value n s \<noteq> Exhausted" for s
    using Suc by blast
  have E: "2 * length s + 1 < n \<Longrightarrow> parse_elements n s \<noteq> Exhausted" for s
    using Suc by blast
  have M: "2 * length s + 1 < n \<Longrightarrow> parse_members n s \<noteq> Exhausted" for s
    using Suc by blast
  have S: "reading (parse_value n s) = Some (v, r) \<Longrightarrow> length r < length s" for s v r
    using parse_shorter[of n s v r] by blast
  have 1: "parse_value (Suc n) s \<noteq> Exhausted" if b: "2 * length s < Suc n"
  proof
    assume a: "parse_value (Suc n) s = Exhausted"
    from a obtain c cs where sk: "skip_ws s = c # cs" by (cases "skip_ws s") (auto simp add: bind_parsed_Exhausted)
    from skip_ws_Cons[OF sk] b have l: "2 * length cs + 1 < n" by simp
    from a sk have "parse_members n cs = Exhausted \<or> parse_elements n cs = Exhausted"
      by (auto simp add: bind_parsed_Exhausted parse_chars_not_Exhausted lex_literal_not_Exhausted
          split: if_splits list.splits option.splits)
    with M[OF l] E[OF l] show False by blast
  qed
  have 2: "parse_elements (Suc n) s \<noteq> Exhausted" if b: "2 * length s + 1 < Suc n"
  proof
    assume a: "parse_elements (Suc n) s = Exhausted"
    from b have "2 * length s < n" by simp
    from V[OF this] a obtain v rest where v: "reading (parse_value n s) = Some (v, rest)"
      by (auto simp add: bind_parsed_Exhausted)
    with a obtain c cs where sk: "skip_ws rest = c # cs"
      by (cases "skip_ws rest") (auto simp add: bind_parsed_Exhausted)
    from S[OF v] skip_ws_Cons[OF sk] b have l: "2 * length cs + 1 < n" by simp
    from a v sk have "parse_elements n cs = Exhausted"
      by (auto simp add: bind_parsed_Exhausted split: if_splits)
    with E[OF l] show False by blast
  qed
  have 3: "parse_members (Suc n) s \<noteq> Exhausted" if b: "2 * length s + 1 < Suc n"
  proof
    assume a: "parse_members (Suc n) s = Exhausted"
    from a obtain q s1 where sk: "skip_ws s = q # s1" by (cases "skip_ws s") (auto simp add: bind_parsed_Exhausted)
    with a have q: "q = CHR 0x22" by (auto simp add: bind_parsed_Exhausted split: if_splits)
    from a sk q obtain k s2 where k: "reading (parse_chars s1) = Some (k, s2)"
      by (auto simp add: bind_parsed_Exhausted parse_chars_not_Exhausted)
    from a sk q k obtain colon s3 where sk2: "skip_ws s2 = colon # s3"
      by (cases "skip_ws s2") (auto simp add: bind_parsed_Exhausted)
    with a sk q k have colon: "colon = CHR '':''" by (auto simp add: bind_parsed_Exhausted split: if_splits)
    note l = skip_ws_Cons[OF sk] parse_chars_shorter[OF k] skip_ws_Cons[OF sk2]
    from l b have "2 * length s3 < n" by simp
    from V[OF this] a sk q k sk2 colon obtain v s4 where v: "reading (parse_value n s3) = Some (v, s4)"
      by (auto simp add: bind_parsed_Exhausted)
    from a sk q k sk2 colon v obtain c cs where sk4: "skip_ws s4 = c # cs"
      by (cases "skip_ws s4") (auto simp add: bind_parsed_Exhausted)
    from l S[OF v] skip_ws_Cons[OF sk4] b have l': "2 * length cs + 1 < n" by simp
    from a sk q k sk2 colon v sk4 have "parse_members n cs = Exhausted"
      by (auto simp add: bind_parsed_Exhausted split: if_splits)
    with M[OF l'] show False by blast
  qed
  from 1 2 3 show ?case by blast
qed

lemma JSON_parse_not_Exhausted: "JSON_parse s \<noteq> Exhausted"
proof -
  have "parse_value (2 * length s + 2) s \<noteq> Exhausted"
    using parse_not_Exhausted[of s "2 * length s + 2"] by simp
  then show ?thesis
    by (auto simp add: JSON_parse_def bind_parsed_Exhausted)
qed

lemma extractKeysFromFile_returns:
  "extractKeysFromFile rt content fileExtension e = None \<longleftrightarrow>
     fileExtension = ''.json'' \<and> (\<exists>v. JSON_parse content = Beyond v)"
  using JSON_parse_not_Exhausted[of content]
  by (cases "JSON_parse content") (auto simp add: extractKeysFromFile_def)

subsection \<open>FileFormatAdapter: what the records hold\<close>

lemma provider_name_enumerated: "provider_name p \<in> set API_KEY_PROVIDERS"
  by (cases p) (simp_all add: API_KEY_PROVIDERS_def)





lemma categorize_line_keys:
  assumes "list_all line_key (fst st)"
  shows "list_all line_key (fst (categorize_line rt line st))"
  using assms provider_name_enumerated
  by (auto simp add: categorize_line_def new_key_def line_key_def classified_def split: option.splits)

lemma categorize_lines_keys:
  "list_all line_key (fst st) \<Longrightarrow> list_all line_key (fst (categorize_lines rt lines st))"
  by (induction lines arbitrary: st) (simp_all add: categorize_line_keys)

lemma extractAndCategorizeKeys_keys:
  "list_all line_key (fst (extractAndCategorizeKeys rt content e))"
  unfolding extractAndCategorizeKeys_def by (rule categorize_lines_keys) simp

lemma line_adapter_keys:
  assumes "ext \<noteq> ''.json''" and "extractKeysFromFile rt content ext e = Some (ks, e')"
    and "k \<in> set ks"
  shows "line_key k"
proof -
  from assms(1,2) have "ks = fst (extractAndCategorizeKeys rt content e)"
    by (auto simp add: extractKeysFromFile_def split: if_splits)
  with extractAndCategorizeKeys_keys[of rt content e] assms(3)
  show ?thesis by (simp add: list_all_iff)
qed

text \<open>
  What the line-oriented adapter puts into the name, the value and the provider of its
  records does not depend on the identifiers and the dates drawn so far.
\<close>

lemma categorize_line_core:
  assumes "map (\<lambda>k. (name k, value' k, provider k)) ks1 = map (\<lambda>k. (name k, value' k, provider k)) ks2"
  shows "map (\<lambda>k. (name k, value' k, provider k)) (fst (categorize_line rt line (ks1, e1))) =
         map (\<lambda>k. (name k, value' k, provider k)) (fst (categorize_line rt line (ks2, e2)))"
  using assms by (simp add: categorize_line_def new_key_def split: option.splits)

lemma categorize_lines_core:
  assumes "map (\<lambda>k. (name k, value' k, provider k)) (fst st1) = map (\<lambda>k. (name k, value' k, provider k)) (fst st2)"
  shows "map (\<lambda>k. (name k, value' k, provider k)) (fst (categorize_lines rt lines st1)) =
         map (\<lambda>k. (name k, value' k, provider k)) (fst (categorize_lines rt lines st2))"
  using assms
proof (induction lines arbitrary: st1 st2)
  case Nil then show ?case by simp
next
  case (Cons line lines)
  have "map (\<lambda>k. (name k, value' k, provider k)) (fst (categorize_line rt line st1)) =
        map (\<lambda>k. (name k, value' k, provider k)) (fst (categorize_line rt line st2))"
    using categorize_line_core[OF Cons.prems[unfolded fst_conv], of rt line "snd st1" "snd st2"]
    by simp
  from Cons.IH[OF this] show ?case by simp
qed

subsubsection \<open>The rows of a CSV file\<close>

lemma csv_provider_effects:
  "fst (csv_provider rt pi cells n v e1) = fst (csv_provider rt pi cells n v e2)"
proof -
  let ?r1 = "extractAndCategorizeKeys rt (n @ ''='' @ v) e1"
  let ?r2 = "extractAndCategorizeKeys rt (n @ ''='' @ v) e2"
  have "map (\<lambda>k. (name k, value' k, provider k)) (fst ?r1) =
        map (\<lambda>k. (name k, value' k, provider k)) (fst ?r2)"
    unfolding extractAndCategorizeKeys_def by (rule categorize_lines_core) simp
  then have "(case ?r1 of ([], e') \<Rightarrow> Undefined | (k # _, e') \<Rightarrow> provider k) =
             (case ?r2 of ([], e') \<Rightarrow> Undefined | (k # _, e') \<Rightarrow> provider k)"
    by (cases ?r1; cases ?r2; cases "fst ?r1"; cases "fst ?r2") auto
  then show ?thesis
    by (simp add: csv_provider_def Let_def split: prod.splits list.splits)
qed

lemma csv_row_core:
  "map (\<lambda>k. (name k, value' k, provider k)) (fst (csv_row rt ni vi pi raw st)) =
     map (\<lambda>k. (name k, value' k, provider k)) (fst st) @
     map (\<lambda>cells. (Str (cells ! ni), Str (cells ! vi),
                   fst (csv_provider rt pi cells (cells ! ni) (cells ! vi) e)))
       (filter (\<lambda>cells. max ni vi < length cells) (map csv_cells (filter (\<lambda>raw. trim raw \<noteq> []) [raw])))"
proof -
  define cells where "cells = csv_cells raw"
  obtain p e1 where p: "csv_provider rt pi cells (cells ! ni) (cells ! vi) (snd st) = (p, e1)"
    by (cases "csv_provider rt pi cells (cells ! ni) (cells ! vi) (snd st)")
  have q: "fst (csv_provider rt pi cells (cells ! ni) (cells ! vi) e) = p"
    using csv_provider_effects[of rt pi cells "cells ! ni" "cells ! vi" e "snd st"] p by simp
  have r: "csv_row rt ni vi pi raw st =
        (if trim raw = [] then st
         else if max ni vi < length cells
           then (fst st @ [new_key rt e1 (cells ! ni) (cells ! vi) p], tick e1) else st)"
    using p unfolding csv_row_def Let_def cells_def csv_cells_def by (simp del: nth_map)
  show ?thesis
    unfolding r using q by (simp add: new_key_def cells_def)
qed

lemma csv_rows_core:
  "map (\<lambda>k. (name k, value' k, provider k)) (fst (csv_rows rt ni vi pi rows st)) =
     map (\<lambda>k. (name k, value' k, provider k)) (fst st) @
     map (\<lambda>cells. (Str (cells ! ni), Str (cells ! vi),
                   fst (csv_provider rt pi cells (cells ! ni) (cells ! vi) e)))
       (filter (\<lambda>cells. max ni vi < length cells) (map csv_cells (filter (\<lambda>raw. trim raw \<noteq> []) rows)))"
proof (induction rows arbitrary: st)
  case Nil show ?case by simp
next
  case (Cons raw rows)
  show ?case
    unfolding csv_rows.simps Cons.IH csv_row_core[of rt ni vi pi raw st e] by simp
qed

lemma parseCsvFile_core:
  assumes "csv_column [''name'', ''key''] content = Some ni"
    and "csv_column [''value'', ''secret''] content = Some vi"
  shows "map (\<lambda>k. (name k, value' k, provider k)) (fst (parseCsvFile rt content e)) =
         map (\<lambda>cells. (Str (cells ! ni), Str (cells ! vi),
                       fst (csv_provider rt (csv_column [''provider'', ''service''] content) cells
                              (cells ! ni) (cells ! vi) e)))
           (csv_data_rows ni vi content)"
proof (cases "length (split_on (CHR 0x0A) content) < 2")
  case True
  then have "tl (split_on (CHR 0x0A) content) = []"
    by (cases "split_on (CHR 0x0A) content") (auto simp add: less_Suc_eq)
  with True show ?thesis by (simp add: parseCsvFile_def csv_data_rows_def)
next
  case False
  with assms show ?thesis
    by (simp add: parseCsvFile_def csv_data_rows_def csv_column_def Let_def csv_rows_core[where e=e])
qed




subsubsection \<open>The elements of a JSON array\<close>

lemma key_of_item_fields:
  assumes "key_of_item rt item e = (Inr k, e')"
  shows "name k = field item ''name''" "value' k = field item ''value''"
  using assms
  by (auto simp add: key_of_item_def Let_def split: if_splits sum.splits prod.splits)

lemma key_of_item_provider:
  assumes "key_of_item rt item e = (Inr k, e')"
  shows "if truthy rt (field item ''provider'') then provider k = field item ''provider''
         else (\<exists>p. detectProvider_coercing rt (field item ''name'') (field item ''value'') = Inr p \<and>
                   provider k = Str (provider_name p))"
  using assms
  by (auto simp add: key_of_item_def Let_def split: if_splits sum.splits prod.splits)

lemma array_item_record:
  assumes "array_item rt item e = (Inr (Some k), e')"
  shows "name k = field item ''name'' \<and> value' k = field item ''value'' \<and>
         truthy rt (name k) \<and> truthy rt (value' k) \<and>
         (if truthy rt (field item ''provider'') then provider k = field item ''provider''
          else (\<exists>p. detectProvider_coercing rt (name k) (value' k) = Inr p \<and>
                    provider k = Str (provider_name p)))"
proof -
  from assms have t: "truthy rt (field item ''name'')" "truthy rt (field item ''value'')"
    and k: "key_of_item rt item e = (Inr k, e')"
    by (auto simp add: array_item_def split: if_splits prod.splits sum.splits)
  from key_of_item_fields[OF k] key_of_item_provider[OF k] t show ?thesis by simp
qed

lemma array_items_from:
  assumes "array_items rt items e = (Inr ks, e')" "k \<in> set ks"
  shows "\<exists>item\<in>set items. \<exists>e0 e1. array_item rt item e0 = (Inr (Some k), e1)"
  using assms
proof (induction items arbitrary: e ks e')
  case Nil then show ?case by simp
next
  case (Cons item items)
  from Cons.prems(1) obtain r e1 ks1 where a: "array_item rt item e = (Inr r, e1)"
    and b: "array_items rt items e1 = (Inr ks1, e')"
    and ks: "ks = (case r of None \<Rightarrow> [] | Some k \<Rightarrow> [k]) @ ks1"
    by (auto split: prod.splits sum.splits)
  show ?case
  proof (cases "k \<in> set ks1")
    case True with Cons.IH[OF b] show ?thesis by auto
  next
    case False
    with Cons.prems(2) ks have "r = Some k" by (auto split: option.splits)
    with a show ?thesis by auto
  qed
qed

lemma json_array_keys:
  assumes "JSON_parse content = Parsed (Arr items)"
    and "extractKeysFromFile rt content ''.json'' e = Some (ks, e')" and "k \<in> set ks"
  shows "\<exists>item\<in>set items.
           name k = field item ''name'' \<and> value' k = field item ''value'' \<and>
           truthy rt (name k) \<and> truthy rt (value' k) \<and>
           (if truthy rt (field item ''provider'') then provider k = field item ''provider''
            else (\<exists>p. detectProvider_coercing rt (name k) (value' k) = Inr p \<and>
                      provider k = Str (provider_name p)))"
proof -
  from assms(1,2) have "catch_json (array_items rt items e) = (ks, e')"
    by (simp add: extractKeysFromFile_def json_keys_def)
  with assms(3) have "\<exists>e1. array_items rt items e = (Inr ks, e1)"
    by (auto simp add: catch_json_def split: prod.splits sum.splits)
  with array_items_from assms(3)
  obtain item e0 e1 where "item \<in> set items" "array_item rt item e0 = (Inr (Some k), e1)"
    by blast
  with array_item_record show ?thesis by blast
qed

subsubsection \<open>The entries of a JSON object\<close>

lemma parse_value_defined: "parse_value n s = Parsed (v, r) \<Longrightarrow> v \<noteq> Undefined"
  by (cases n; cases "skip_ws s")
     (auto simp add: bind_parsed_Parsed lex_literal_def split: if_splits list.splits option.splits)

lemma parse_members_defined:
  "parse_members n s = Parsed (ms, r) \<Longrightarrow> Undefined \<notin> snd ` set ms"
proof (induction n arbitrary: s ms r)
  case 0 then show ?case by simp
next
  case (Suc n)
  from Suc.prems obtain q s1 where sk: "skip_ws s = q # s1" by (cases "skip_ws s") auto
  with Suc.prems have q: "q = CHR 0x22" by (auto split: if_splits)
  from Suc.prems sk q obtain k s2 where k: "parse_chars s1 = Parsed (k, s2)"
    by (auto simp add: bind_parsed_Parsed)
  from Suc.prems sk q k obtain colon s3 where sk2: "skip_ws s2 = colon # s3"
    by (cases "skip_ws s2") auto
  with Suc.prems sk q k have colon: "colon = CHR '':''" by (auto split: if_splits)
  from Suc.prems sk q k sk2 colon obtain v s4 where v: "parse_value n s3 = Parsed (v, s4)"
    by (auto simp add: bind_parsed_Parsed)
  from Suc.prems sk q k sk2 colon v obtain c cs where sk4: "skip_ws s4 = c # cs"
    by (cases "skip_ws s4") auto
  note d = parse_value_defined[OF v]
  show ?case
  proof (cases "c = CHR '',''")
    case True
    with Suc.prems sk q k sk2 colon v sk4 obtain ms' where m: "parse_members n cs = Parsed (ms', r)"
      and ms: "ms = (k, v) # ms'"
      by (auto simp add: bind_parsed_Parsed)
    from Suc.IH[OF m] d ms show ?thesis by auto
  next
    case False
    with Suc.prems sk q k sk2 colon v sk4 have "ms = [(k, v)]" by (auto split: if_splits)
    with d show ?thesis by auto
  qed
qed

lemma set_insert_index: "set (insert_index k v props) = insert (k, v) (set props)"
  by (induction props) (auto split: if_splits)

lemma CreateDataProperty_values:
  "snd ` set (CreateDataProperty props k v) \<subseteq> insert v (snd ` set props)"
  by (auto simp add: CreateDataProperty_def set_insert_index split: if_splits)

lemma object_of_members_values:
  "snd ` set (object_of_members props ms) \<subseteq> snd ` set props \<union> snd ` set ms"
proof (induction ms arbitrary: props)
  case Nil show ?case by simp
next
  case (Cons m ms)
  obtain k v where m: "m = (k, v)" by (cases m)
  from Cons.IH[of "CreateDataProperty props k v"] CreateDataProperty_values[of props k v]
  show ?case unfolding m by auto
qed

lemma parse_value_Obj_defined:
  assumes "parse_value n s = Parsed (Obj props, r)"
  shows "Undefined \<notin> snd ` set props"
proof -
  from assms obtain m where n: "n = Suc m" by (cases n) auto
  from assms n obtain c cs where sk: "skip_ws s = c # cs" by (cases "skip_ws s") auto
  from assms n sk have c: "c = CHR ''{''"
    by (auto simp add: bind_parsed_Parsed lex_literal_def split: if_splits list.splits option.splits)
  from assms n sk c obtain c' cs' where sk': "skip_ws cs = c' # cs'" by (cases "skip_ws cs") auto
  show ?thesis
  proof (cases "c' = CHR ''}''")
    case True with assms n sk c sk' show ?thesis by simp
  next
    case False
    with assms n sk c sk' obtain ms where ms: "parse_members m cs = Parsed (ms, r)"
      and p: "props = object_of_members [] ms"
      by (auto simp add: bind_parsed_Parsed)
    from parse_members_defined[OF ms] object_of_members_values[of "[]" ms] p show ?thesis by auto
  qed
qed

lemma JSON_parse_entries_defined:
  assumes "JSON_parse content = Parsed v" and "\<forall>items. v \<noteq> Arr items"
    and "Object_entries v = Inr entries"
  shows "Undefined \<notin> snd ` set entries"
proof (cases v)
  case (Obj props)
  with assms(1) obtain r where "parse_value (2 * length content + 2) content = Parsed (Obj props, r)"
    by (auto simp add: JSON_parse_def bind_parsed_Parsed split: if_splits)
  from parse_value_Obj_defined[OF this] assms(3) Obj show ?thesis by simp
qed (use assms in auto)

lemma key_of_entry_record:
  assumes "val \<noteq> Undefined"
  shows "name (key_of_entry rt (key, val) e) = Str key \<and>
         is_string (value' (key_of_entry rt (key, val) e)) \<and>
         classified (key_of_entry rt (key, val) e) \<and>
         (val \<noteq> Str [] \<longrightarrow> (\<forall>n. val = Num n \<longrightarrow> Number_toString rt n \<noteq> []) \<longrightarrow>
            is_nonempty_string (value' (key_of_entry rt (key, val) e)))"
  using assms
  by (cases val) (simp_all add: key_of_entry_def classified_def JSON_stringify_def wrap_def)

lemma entries_loop_nth:
  assumes "entries_loop rt entries e = (ks, e')"
  shows "length ks = length entries \<and>
         (\<forall>i<length entries. \<exists>e0. ks ! i = key_of_entry rt (entries ! i) e0)"
  using assms
proof (induction entries arbitrary: e ks e')
  case Nil then show ?case by simp
next
  case (Cons entry entries)
  from Cons.prems obtain ks1 where a: "entries_loop rt entries (tick e) = (ks1, e')"
    and ks: "ks = key_of_entry rt entry e # ks1"
    by (auto split: prod.splits)
  from Cons.IH[OF a] have l: "length ks1 = length entries"
    and n: "\<And>i. i < length entries \<Longrightarrow> \<exists>e0. ks1 ! i = key_of_entry rt (entries ! i) e0"
    by auto
  have "\<exists>e0. ks ! i = key_of_entry rt ((entry # entries) ! i) e0" if "i < length (entry # entries)" for i
  proof (cases i)
    case 0 with ks show ?thesis by auto
  next
    case (Suc j) with that n[of j] ks show ?thesis by simp
  qed
  with l ks show ?case by simp
qed

lemma json_object_keys:
  assumes "JSON_parse content = Parsed v" and "\<forall>items. v \<noteq> Arr items"
    and "Object_entries v = Inr entries"
    and "extractKeysFromFile rt content ''.json'' e = Some (ks, e')"
  shows "length ks = length entries"
    and "i < length entries \<Longrightarrow>
         name (ks ! i) = Str (fst (entries ! i)) \<and> is_string (value' (ks ! i)) \<and>
         classified (ks ! i) \<and>
         (snd (entries ! i) \<noteq> Str [] \<longrightarrow>
          (\<forall>n. snd (entries ! i) = Num n \<longrightarrow> Number_toString rt n \<noteq> []) \<longrightarrow>
            is_nonempty_string (value' (ks ! i)))"
proof -
  from assms(1,2,4) have "catch_json (json_keys rt v e) = (ks, e')"
    by (simp add: extractKeysFromFile_def)
  with assms(2,3) have "entries_loop rt entries e = (ks, e')"
    by (cases v) (auto simp add: json_keys_def catch_json_def split: prod.splits)
  note l = entries_loop_nth[OF this]
  from l show "length ks = length entries" by simp
  assume i: "i < length entries"
  with l obtain e0 where k: "ks ! i = key_of_entry rt (entries ! i) e0" by blast
  from JSON_parse_entries_defined[OF assms(1,2,3)] i have "snd (entries ! i) \<noteq> Undefined"
    by (metis imageI nth_mem)
  from key_of_entry_record[OF this, of rt "fst (entries ! i)" e0] k
  show "name (ks ! i) = Str (fst (entries ! i)) \<and> is_string (value' (ks ! i)) \<and>
         classified (ks ! i) \<and>
         (snd (entries ! i) \<noteq> Str [] \<longrightarrow>
          (\<forall>n. snd (entries ! i) = Num n \<longrightarrow> Number_toString rt n \<noteq> []) \<longrightarrow>
            is_nonempty_string (value' (ks ! i)))"
    by simp
qed



text \<open>
  C4, as the code has it. Every record of the line-oriented adapter (any extension but
  \<^verbatim>\<open>.json\<close>) has a name and a value that are non-empty strings. Every record of the JSON
  array adapter has the name and the value of an element of the array, and they are truthy.
  The JSON object adapter makes one record for each entry, and the record of an entry whose
  key is not empty and whose value is not the empty string has a non-empty name and a
  non-empty string as its value, provided the runtime prints a number as a non-empty string.
  When the title row of a CSV file names a name and a value column, the CSV adapter makes one
  record for each row after it that is not blank and reaches both columns, and the name and
  the value of the record are the cells of the row as they are, empty or not.
\<close>

theorem emitted_name_value_nonempty:
  "(ext \<noteq> ''.json'' \<longrightarrow>
      (\<exists>ks e'. extractKeysFromFile rt content ext e = Some (ks, e') \<and>
         (\<forall>k\<in>set ks. is_nonempty_string (name k) \<and> is_nonempty_string (value' k)))) \<and>
   (JSON_parse content = Parsed (Arr items) \<longrightarrow>
      (\<exists>ks e'. extractKeysFromFile rt content ''.json'' e = Some (ks, e') \<and>
         (\<forall>k\<in>set ks. truthy rt (name k) \<and> truthy rt (value' k) \<and>
            (\<exists>item\<in>set items. name k = field item ''name'' \<and> value' k = field item ''value'')))) \<and>
   (JSON_parse content = Parsed v \<longrightarrow> (\<forall>items. v \<noteq> Arr items) \<longrightarrow>
    Object_entries v = Inr entries \<longrightarrow>
      (\<exists>ks e'. extractKeysFromFile rt content ''.json'' e = Some (ks, e') \<and>
         length ks = length entries \<and>
         (\<forall>i<length entries.
            fst (entries ! i) \<noteq> [] \<longrightarrow> snd (entries ! i) \<noteq> Str [] \<longrightarrow>
            (\<forall>n. snd (entries ! i) = Num n \<longrightarrow> Number_toString rt n \<noteq> []) \<longrightarrow>
              is_nonempty_string (name (ks ! i)) \<and> is_nonempty_string (value' (ks ! i))))) \<and>
   (csv_column [''name'', ''key''] content = Some ni \<longrightarrow>
    csv_column [''value'', ''secret''] content = Some vi \<longrightarrow>
      map (\<lambda>k. (name k, value' k)) (fst (parseCsvFile rt content e)) =
        map (\<lambda>cells. (Str (cells ! ni), Str (cells ! vi))) (csv_data_rows ni vi content))"
proof (intro conjI impI)
  assume x: "ext \<noteq> ''.json''"
  then obtain ks e' where r: "extractKeysFromFile rt content ext e = Some (ks, e')"
    using extractKeysFromFile_returns[of rt content ext e]
    by (cases "extractKeysFromFile rt content ext e") auto
  from line_adapter_keys[OF x r]
  have "\<forall>k\<in>set ks. is_nonempty_string (name k) \<and> is_nonempty_string (value' k)"
    by (simp add: line_key_def)
  with r show "\<exists>ks e'. extractKeysFromFile rt content ext e = Some (ks, e') \<and>
         (\<forall>k\<in>set ks. is_nonempty_string (name k) \<and> is_nonempty_string (value' k))"
    by blast
next
  assume a: "JSON_parse content = Parsed (Arr items)"
  then obtain ks e' where b: "extractKeysFromFile rt content ''.json'' e = Some (ks, e')"
    using extractKeysFromFile_returns[of rt content "''.json''" e]
    by (cases "extractKeysFromFile rt content ''.json'' e") auto
  have "\<forall>k\<in>set ks. truthy rt (name k) \<and> truthy rt (value' k) \<and>
         (\<exists>item\<in>set items. name k = field item ''name'' \<and> value' k = field item ''value'')"
  proof
    fix k assume "k \<in> set ks"
    from json_array_keys[OF a b this]
    show "truthy rt (name k) \<and> truthy rt (value' k) \<and>
         (\<exists>item\<in>set items. name k = field item ''name'' \<and> value' k = field item ''value'')"
      by blast
  qed
  with b show "\<exists>ks e'. extractKeysFromFile rt content ''.json'' e = Some (ks, e') \<and>
         (\<forall>k\<in>set ks. truthy rt (name k) \<and> truthy rt (value' k) \<and>
            (\<exists>item\<in>set items. name k = field item ''name'' \<and> value' k = field item ''value''))"
    by blast
next
  assume a: "JSON_parse content = Parsed v" and b: "\<forall>items. v \<noteq> Arr items"
    and c: "Object_entries v = Inr entries"
  from a obtain ks e' where d: "extractKeysFromFile rt content ''.json'' e = Some (ks, e')"
    using extractKeysFromFile_returns[of rt content "''.json''" e]
    by (cases "extractKeysFromFile rt content ''.json'' e") auto
  have "\<forall>i<length entries.
         fst (entries ! i) \<noteq> [] \<longrightarrow> snd (entries ! i) \<noteq> Str [] \<longrightarrow>
         (\<forall>n. snd (entries ! i) = Num n \<longrightarrow> Number_toString rt n \<noteq> []) \<longrightarrow>
           is_nonempty_string (name (ks ! i)) \<and> is_nonempty_string (value' (ks ! i))"
  proof (intro allI impI)
    fix i
    assume i: "i < length entries" and k: "fst (entries ! i) \<noteq> []"
      and s: "snd (entries ! i) \<noteq> Str []"
      and n: "\<forall>n. snd (entries ! i) = Num n \<longrightarrow> Number_toString rt n \<noteq> []"
    from json_object_keys(2)[OF a b c d i] k s n
    show "is_nonempty_string (name (ks ! i)) \<and> is_nonempty_string (value' (ks ! i))"
      by simp
  qed
  with d json_object_keys(1)[OF a b c d]
  show "\<exists>ks e'. extractKeysFromFile rt content ''.json'' e = Some (ks, e') \<and>
         length ks = length entries \<and>
         (\<forall>i<length entries.
            fst (entries ! i) \<noteq> [] \<longrightarrow> snd (entries ! i) \<noteq> Str [] \<longrightarrow>
            (\<forall>n. snd (entries ! i) = Num n \<longrightarrow> Number_toString rt n \<noteq> []) \<longrightarrow>
              is_nonempty_string (name (ks ! i)) \<and> is_nonempty_string (value' (ks ! i)))"
    by blast
next
  assume a: "csv_column [''name'', ''key''] content = Some ni"
    and b: "csv_column [''value'', ''secret''] content = Some vi"
  have "map (\<lambda>k. (name k, value' k)) (fst (parseCsvFile rt content e)) =
        map (\<lambda>t. (fst t, fst (snd t)))
          (map (\<lambda>k. (name k, value' k, provider k)) (fst (parseCsvFile rt content e)))"
    by simp
  also have "\<dots> = map (\<lambda>cells. (Str (cells ! ni), Str (cells ! vi))) (csv_data_rows ni vi content)"
    unfolding parseCsvFile_core[OF a b] by simp
  finally show "map (\<lambda>k. (name k, value' k)) (fst (parseCsvFile rt content e)) =
        map (\<lambda>cells. (Str (cells ! ni), Str (cells ! vi))) (csv_data_rows ni vi content)" .
qed

theorem emitted_name_value_nonempty_witness:
  "(\<exists>k e'. extractKeysFromFile example_runtime ''OPENAI_API_KEY=sk-1'' ''.env'' no_effects = Some ([k], e') \<and>
      is_nonempty_string (name k) \<and> is_nonempty_string (value' k)) \<and>
   (\<exists>k e'. extractKeysFromFile example_runtime
        (''[{'' @ [CHR 0x22] @ ''name'' @ [CHR 0x22] @ '':'' @ [CHR 0x22] @ ''a'' @ [CHR 0x22] @ '','' @ [CHR 0x22] @ ''value'' @ [CHR 0x22] @ '':7}]'') ''.json'' no_effects = Some ([k], e') \<and>
      truthy example_runtime (name k) \<and> truthy example_runtime (value' k)) \<and>
   (\<exists>k e'. extractKeysFromFile example_runtime
        (''{'' @ [CHR 0x22] @ ''FOO_KEY'' @ [CHR 0x22] @ '':'' @ [CHR 0x22] @ ''bar'' @ [CHR 0x22] @ ''}'') ''.json'' no_effects = Some ([k], e') \<and>
      is_nonempty_string (name k) \<and> is_nonempty_string (value' k)) \<and>
   map (\<lambda>k. (name k, value' k))
     (fst (parseCsvFile example_runtime (''name,value'' @ [CHR 0x0A] @ ''K,'') no_effects)) =
     [(Str ''K'', Str [])]"
proof (intro conjI)
  let ?k = "\<lparr> id' = Str ''uuid-0'', name = Str ''OPENAI_API_KEY'', value' = Str ''sk-1'',
    provider = Str ''OpenAI'', description = Str [], dateAdded = Str ''2025-01-01T00:00:00.000Z'',
    lastUsed = Undefined \<rparr>"
  let ?e = "\<lparr> uuids = 1, dates = 1, console = [] \<rparr>"
  have 1: "extractKeysFromFile example_runtime ''OPENAI_API_KEY=sk-1'' ''.env'' no_effects = Some ([?k], ?e)"
    by code_simp
  from emitted_name_value_nonempty[where ext="''.env''" and rt=example_runtime
        and content="''OPENAI_API_KEY=sk-1''" and e=no_effects, THEN conjunct1] 1
  have "is_nonempty_string (name ?k) \<and> is_nonempty_string (value' ?k)" by simp
  with 1 show "\<exists>k e'. extractKeysFromFile example_runtime ''OPENAI_API_KEY=sk-1'' ''.env'' no_effects = Some ([k], e') \<and>
      is_nonempty_string (name k) \<and> is_nonempty_string (value' k)" by blast
next
  let ?c = "(''[{'' @ [CHR 0x22] @ ''name'' @ [CHR 0x22] @ '':'' @ [CHR 0x22] @ ''a'' @ [CHR 0x22] @ '','' @ [CHR 0x22] @ ''value'' @ [CHR 0x22] @ '':7}]'')"
  let ?k = "\<lparr> id' = Str ''uuid-0'', name = Str ''a'', value' = Num ''7'',
    provider = Str ''Other'', description = Str [], dateAdded = Str ''2025-01-01T00:00:00.000Z'',
    lastUsed = Undefined \<rparr>"
  let ?e = "\<lparr> uuids = 1, dates = 1, console = [] \<rparr>"
  have 1: "extractKeysFromFile example_runtime ?c ''.json'' no_effects = Some ([?k], ?e)"
    by code_simp
  have 2: "JSON_parse ?c = Parsed (Arr [Obj [(''name'', Str ''a''), (''value'', Num ''7'')]])"
    by code_simp
  from emitted_name_value_nonempty[where rt=example_runtime and content="?c" and e=no_effects
        and items="[Obj [(''name'', Str ''a''), (''value'', Num ''7'')]]",
        THEN conjunct2, THEN conjunct1] 1 2
  have "truthy example_runtime (name ?k) \<and> truthy example_runtime (value' ?k)" by simp
  with 1 show "\<exists>k e'. extractKeysFromFile example_runtime ?c ''.json'' no_effects = Some ([k], e') \<and>
      truthy example_runtime (name k) \<and> truthy example_runtime (value' k)" by blast
next
  let ?c = "(''{'' @ [CHR 0x22] @ ''FOO_KEY'' @ [CHR 0x22] @ '':'' @ [CHR 0x22] @ ''bar'' @ [CHR 0x22] @ ''}'')"
  let ?k = "\<lparr> id' = Str ''uuid-0'', name = Str ''FOO_KEY'', value' = Str ''bar'',
    provider = Str ''Other'', description = Str [], dateAdded = Str ''2025-01-01T00:00:00.000Z'',
    lastUsed = Undefined \<rparr>"
  let ?e = "\<lparr> uuids = 1, dates = 1, console = [] \<rparr>"
  have 1: "extractKeysFromFile example_runtime ?c ''.json'' no_effects = Some ([?k], ?e)"
    by code_simp
  have 2: "JSON_parse ?c = Parsed (Obj [(''FOO_KEY'', Str ''bar'')])"
    by code_simp
  from emitted_name_value_nonempty[where rt=example_runtime and content="?c" and e=no_effects
        and v="Obj [(''FOO_KEY'', Str ''bar'')]" and entries="[(''FOO_KEY'', Str ''bar'')]",
        THEN conjunct2, THEN conjunct2, THEN conjunct1] 1 2
  have "is_nonempty_string (name ?k) \<and> is_nonempty_string (value' ?k)" by simp
  with 1 show "\<exists>k e'. extractKeysFromFile example_runtime ?c ''.json'' no_effects = Some ([k], e') \<and>
      is_nonempty_string (name k) \<and> is_nonempty_string (value' k)" by blast
next
  let ?c = "(''name,value'' @ [CHR 0x0A] @ ''K,'')"
  have 1: "csv_column [''name'', ''key''] ?c = Some 0" by code_simp
  have 2: "csv_column [''value'', ''secret''] ?c = Some 1" by code_simp
  have 3: "csv_data_rows 0 1 ?c = [[''K'', []]]" by code_simp
  from emitted_name_value_nonempty[where rt=example_runtime and content="?c" and e=no_effects and ni=0 and vi=1,
        THEN conjunct2, THEN conjunct2, THEN conjunct2] 1 2
  have "map (\<lambda>k. (name k, value' k)) (fst (parseCsvFile example_runtime ?c no_effects)) =
        map (\<lambda>cells. (Str (cells ! 0), Str (cells ! 1))) (csv_data_rows 0 1 ?c)"
    by simp
  then show "map (\<lambda>k. (name k, value' k)) (fst (parseCsvFile example_runtime ?c no_effects)) =
     [(Str ''K'', Str [])]"
    unfolding 3 by simp
qed

text \<open>
  The claim as written fails on the CSV path, where a row whose value cell is empty becomes a
  record with an empty value; on the JSON object path, where an entry whose value is the
  empty string does; and on the JSON array path, where the value of an element that is a
  number stays a number.
\<close>

theorem emitted_empty_value_counterexample:
  "map value' (fst (parseCsvFile example_runtime (''name,value'' @ [CHR 0x0A] @ ''K,'') no_effects)) =
     [Str []] \<and>
   map_option (\<lambda>r. map value' (fst r))
     (extractKeysFromFile example_runtime (''{'' @ [CHR 0x22] @ ''a'' @ [CHR 0x22] @ '':'' @ [CHR 0x22] @ [CHR 0x22] @ ''}'') ''.json'' no_effects) =
     Some [Str []] \<and>
   map_option (\<lambda>r. map value' (fst r))
     (extractKeysFromFile example_runtime (''[{'' @ [CHR 0x22] @ ''name'' @ [CHR 0x22] @ '':'' @ [CHR 0x22] @ ''a'' @ [CHR 0x22] @ '','' @ [CHR 0x22] @ ''value'' @ [CHR 0x22] @ '':7}]'') ''.json'' no_effects) =
     Some [Num ''7'']"
  by code_simp




text \<open>
  C10. When \<^verbatim>\<open>JSON.parse\<close> reads no value from the content, the content is not a JSON text
  and the parse throws its \<^verbatim>\<open>SyntaxError\<close>; the JSON adapter then returns no record and
  reports the error on the console: it returns to its caller, whatever the runtime and the
  effects so far.
\<close>

theorem malformed_json_recoverable:
  assumes "reading (JSON_parse content) = None"
  shows "extractKeysFromFile rt content ''.json'' e =
           Some ([], e \<lparr> console := console e @ [SyntaxError] \<rparr>) \<and>
         parseJsonFile rt content e =
           Some ([], e \<lparr> console := console e @ [SyntaxError] \<rparr>)"
proof -
  from assms JSON_parse_not_Exhausted[of content] have "JSON_parse content = Malformed"
    by (cases "JSON_parse content") simp_all
  then show ?thesis
    by (simp add: parseJsonFile_def extractKeysFromFile_def catch_json_def)
qed

theorem malformed_json_recoverable_witness:
  "extractKeysFromFile example_runtime ''{bad'' ''.json'' no_effects =
     Some ([], \<lparr> uuids = 0, dates = 0, console = [SyntaxError] \<rparr>) \<and>
   extractKeysFromFile example_runtime
     (''{'' @ [CHR 0x22] @ ''a'' @ [CHR 0x22] @ '':'' @ [CHR 0x22] @ [CHR 0x5C] @ ''u0100'' @ [CHR 0x22]) ''.json'' no_effects =
     Some ([], \<lparr> uuids = 0, dates = 0, console = [SyntaxError] \<rparr>)"
proof
  have "reading (JSON_parse ''{bad'') = None" by code_simp
  from malformed_json_recoverable[OF this, of example_runtime no_effects]
  show "extractKeysFromFile example_runtime ''{bad'' ''.json'' no_effects =
     Some ([], \<lparr> uuids = 0, dates = 0, console = [SyntaxError] \<rparr>)"
    by (simp add: no_effects_def)
next
  have "reading (JSON_parse (''{'' @ [CHR 0x22] @ ''a'' @ [CHR 0x22] @ '':'' @ [CHR 0x22] @ [CHR 0x5C] @ ''u0100'' @ [CHR 0x22])) = None"
    by code_simp
  from malformed_json_recoverable[OF this, of example_runtime no_effects]
  show "extractKeysFromFile example_runtime
     (''{'' @ [CHR 0x22] @ ''a'' @ [CHR 0x22] @ '':'' @ [CHR 0x22] @ [CHR 0x5C] @ ''u0100'' @ [CHR 0x22]) ''.json'' no_effects =
     Some ([], \<lparr> uuids = 0, dates = 0, console = [SyntaxError] \<rparr>)"
    by (simp add: no_effects_def)
qed

subsection \<open>JSON.parse after JSON.stringify\<close>

lemma hex_value_hex_digit: "d < 16 \<Longrightarrow> hex_value (hex_digit d) = Some d"
proof -
  assume d: "d < 16"
  have 1: "(48 + d) mod 256 = 48 + d" "(87 + d) mod 256 = 87 + d" using d by simp_all
  show ?thesis using d by (auto simp add: hex_value_def hex_digit_def Let_def 1)
qed

lemma hex4_control:
  assumes "n < 32"
  shows "hex4 (CHR ''0'' # CHR ''0'' # hex_digit (n div 16) # hex_digit (n mod 16) # r) = Some n"
proof -
  have a: "hex_value (hex_digit (n div 16)) = Some (n div 16)"
    using assms by (intro hex_value_hex_digit) simp
  have b: "hex_value (hex_digit (n mod 16)) = Some (n mod 16)"
    by (intro hex_value_hex_digit) simp
  have z: "hex_value (CHR ''0'') = Some 0" by (simp add: hex_value_def)
  show ?thesis by (simp add: hex4_def a b z)
qed

lemma parse_chars_QuoteJSONChar:
  "parse_chars (QuoteJSONChar c @ r) = prepend c (parse_chars r)"
proof -
  consider (b) "c = CHR 0x08" | (t) "c = CHR 0x09" | (n) "c = CHR 0x0A" | (f) "c = CHR 0x0C"
    | (r) "c = CHR 0x0D" | (q) "c = CHR 0x22" | (s) "c = CHR 0x5C"
    | (u) "c \<notin> {CHR 0x08, CHR 0x09, CHR 0x0A, CHR 0x0C, CHR 0x0D, CHR 0x22, CHR 0x5C}" "(of_char c :: nat) < 32"
    | (o) "c \<notin> {CHR 0x08, CHR 0x09, CHR 0x0A, CHR 0x0C, CHR 0x0D, CHR 0x22, CHR 0x5C}" "\<not> (of_char c :: nat) < 32"
    by blast
  then show ?thesis
  proof cases
    case u
    have "char_of (of_char c :: nat) = c" by simp
    with u hex4_control[of "of_char c" r] show ?thesis
      by (simp add: QuoteJSONChar_def escaped_def)
  next
    case o
    then show ?thesis by (simp add: QuoteJSONChar_def)
  qed (simp_all add: QuoteJSONChar_def unescape_def)
qed

lemma parse_chars_quoted:
  "parse_chars (concat (map QuoteJSONChar s) @ CHR 0x22 # rest) = Parsed (s, rest)"
  by (induction s) (simp_all add: parse_chars_QuoteJSONChar prepend_def)

lemma skip_ws_pad:
  "list_all isJSONWhiteSpace pad \<Longrightarrow> \<not> isJSONWhiteSpace c \<Longrightarrow> skip_ws (pad @ c # r) = c # r"
  by (induction pad) (simp_all add: skip_ws_def)

lemma skip_ws_end: "list_all isJSONWhiteSpace pad \<Longrightarrow> skip_ws pad = []"
  by (induction pad) (simp_all add: skip_ws_def)

lemma length_QuoteJSONString: "2 \<le> length (QuoteJSONString s)"
  by (simp add: QuoteJSONString_def)

lemma blank_skip: "blank pad \<Longrightarrow> \<not> isJSONWhiteSpace c \<Longrightarrow> skip_ws (pad @ c # r) = c # r"
  unfolding blank_def by (rule skip_ws_pad)

lemma opens_value_skip:
  assumes "blank pad" "opens_value t"
  shows "skip_ws (pad @ t @ r) = t @ r"
proof -
  from assms(2) obtain c t' where t: "t = c # t'" and c: "\<not> isJSONWhiteSpace c"
    by (cases t) (auto simp add: opens_value_def)
  show ?thesis unfolding t using blank_skip[OF assms(1) c] by simp
qed

lemma join_Cons: "parts \<noteq> [] \<Longrightarrow> join sep (t # parts) = t @ sep @ join sep parts"
  by (cases parts) simp_all

lemma opens_value_join:
  assumes "parts \<noteq> []" "list_all opens_value parts"
  shows "opens_value (join sep parts @ r)"
proof -
  from assms obtain t ts where p: "parts = t # ts" and t: "opens_value t" by (cases parts) auto
  from t obtain c t' where "t = c # t'" by (cases t) (auto simp add: opens_value_def)
  with t p show ?thesis by (cases ts) (auto simp add: opens_value_def)
qed

lemma reads_value_Null: "reads_value rt gap Null"
proof -
  have "parse_value n (pad @ ''null'' @ rest) = Parsed (Null, rest)"
    if "blank pad" "4 \<le> n" for n pad rest
  proof -
    from that obtain m where n: "n = Suc m" by (cases n) auto
    have "skip_ws (pad @ ''null'' @ rest) = ''null'' @ rest"
      using blank_skip[OF that(1), of "CHR ''n''"] by (simp add: isJSONWhiteSpace_def)
    then show ?thesis unfolding n by (simp add: lex_literal_def startsWith_def)
  qed
  then show ?thesis
    by (simp add: reads_value_def opens_value_def isJSONWhiteSpace_def)
qed

lemma reads_value_Bool: "reads_value rt gap (Bool b)"
proof -
  have t: "parse_value n (pad @ ''true'' @ rest) = Parsed (Bool True, rest)"
    if "blank pad" "4 \<le> n" for n pad rest
  proof -
    from that obtain m where n: "n = Suc m" by (cases n) auto
    have "skip_ws (pad @ ''true'' @ rest) = ''true'' @ rest"
      using blank_skip[OF that(1), of "CHR ''t''"] by (simp add: isJSONWhiteSpace_def)
    then show ?thesis unfolding n by (simp add: lex_literal_def startsWith_def)
  qed
  have f: "parse_value n (pad @ ''false'' @ rest) = Parsed (Bool False, rest)"
    if "blank pad" "5 \<le> n" for n pad rest
  proof -
    from that obtain m where n: "n = Suc m" by (cases n) auto
    have "skip_ws (pad @ ''false'' @ rest) = ''false'' @ rest"
      using blank_skip[OF that(1), of "CHR ''f''"] by (simp add: isJSONWhiteSpace_def)
    then show ?thesis unfolding n by (simp add: lex_literal_def startsWith_def)
  qed
  show ?thesis using t f
    by (cases b) (simp_all add: reads_value_def opens_value_def isJSONWhiteSpace_def)
qed

lemma parse_value_string:
  assumes "blank pad" "0 < n"
  shows "parse_value n (pad @ QuoteJSONString s @ rest) = Parsed (Str s, rest)"
proof -
  from assms obtain m where n: "n = Suc m" by (cases n) auto
  let ?body = "concat (map QuoteJSONChar s) @ CHR 0x22 # rest"
  have q: "QuoteJSONString s @ rest = CHR 0x22 # ?body" by (simp add: QuoteJSONString_def)
  have "skip_ws (pad @ CHR 0x22 # ?body) = CHR 0x22 # ?body"
    by (rule blank_skip[OF assms(1)]) (simp add: isJSONWhiteSpace_def)
  then show ?thesis unfolding n q by (simp add: parse_chars_quoted)
qed

lemma opens_value_QuoteJSONString: "opens_value (QuoteJSONString s @ r)"
  by (simp add: opens_value_def QuoteJSONString_def isJSONWhiteSpace_def)

lemma reads_value_Str: "reads_value rt gap (Str s)"
  unfolding reads_value_def
proof (intro allI impI)
  fix ind
  have "opens_value (QuoteJSONString s)" using opens_value_QuoteJSONString[of s "[]"] by simp
  moreover have "parse_value n (pad @ QuoteJSONString s @ rest) = Parsed (Str s, rest)"
    if "blank pad" "length (QuoteJSONString s) \<le> n" for n pad rest
    using that length_QuoteJSONString[of s] by (intro parse_value_string) auto
  ultimately show "\<exists>t. SerializeJSONProperty rt gap ind (Str s) = Some t \<and> opens_value t \<and>
             (\<forall>n pad rest. blank pad \<longrightarrow> length t \<le> n \<longrightarrow>
                parse_value n (pad @ t @ rest) = Parsed (Str s, rest))"
    by simp
qed

lemma reads_elements_Nil: "reads_elements rt gap []"
  by (simp add: reads_elements_def)

lemma reads_elements_Cons:
  assumes x: "reads_value rt gap x" and xs: "reads_elements rt gap xs"
  shows "reads_elements rt gap (x # xs)"
  unfolding reads_elements_def
proof (intro allI impI conjI)
  fix ind assume ind: "blank ind"
  from x ind obtain t where t: "SerializeJSONProperty rt gap ind x = Some t" and ot: "opens_value t"
    and pt: "\<And>n pad rest. blank pad \<Longrightarrow> length t \<le> n \<Longrightarrow>
               parse_value n (pad @ t @ rest) = Parsed (x, rest)"
    unfolding reads_value_def by blast
  let ?parts = "SerializeJSONArray rt gap ind xs"
  from xs ind have len: "length ?parts = length xs" and op: "list_all opens_value ?parts"
    and pe: "\<And>n pad sepws tail rest. xs \<noteq> [] \<Longrightarrow> blank pad \<Longrightarrow> blank sepws \<Longrightarrow> blank tail \<Longrightarrow>
           length (join (CHR '','' # sepws) ?parts) < n \<Longrightarrow>
           parse_elements n (pad @ join (CHR '','' # sepws) ?parts @ tail @ CHR '']'' # rest) =
           Parsed (xs, rest)"
    unfolding reads_elements_def by blast+
  have ser: "SerializeJSONArray rt gap ind (x # xs) = t # ?parts" by (simp add: t)
  show "length (SerializeJSONArray rt gap ind (x # xs)) = length (x # xs)"
    unfolding ser by (simp add: len)
  show "list_all opens_value (SerializeJSONArray rt gap ind (x # xs))"
    unfolding ser by (simp add: ot op)
  fix n pad sepws tail rest
  assume b: "blank pad" "blank sepws" "blank tail"
    and n: "length (join (CHR '','' # sepws) (SerializeJSONArray rt gap ind (x # xs))) < n"
  let ?sep = "CHR '','' # sepws"
  from n obtain m where m: "n = Suc m" by (cases n) auto
  show "parse_elements n
          (pad @ join ?sep (SerializeJSONArray rt gap ind (x # xs)) @ tail @ CHR '']'' # rest) =
        Parsed (x # xs, rest)"
  proof (cases "xs = []")
    case True
    then have j: "join ?sep (t # ?parts) = t" using len by simp
    from n have "length t \<le> m" unfolding ser j m by simp
    from pt[OF b(1) this]
    have 1: "parse_value m (pad @ t @ tail @ CHR '']'' # rest) = Parsed (x, tail @ CHR '']'' # rest)" .
    have 2: "skip_ws (tail @ CHR '']'' # rest) = CHR '']'' # rest"
      by (rule blank_skip[OF b(3)]) (simp add: isJSONWhiteSpace_def)
    show ?thesis unfolding ser j m using True by (simp add: 1 2)
  next
    case False
    then have ne: "?parts \<noteq> []" using len by auto
    have j: "join ?sep (t # ?parts) = t @ ?sep @ join ?sep ?parts" by (rule join_Cons[OF ne])
    let ?R = "CHR '','' # sepws @ join ?sep ?parts @ tail @ CHR '']'' # rest"
    have tne: "t \<noteq> []" using ot by (simp add: opens_value_def)
    from n have lt: "length t \<le> m" and lj: "length (join ?sep ?parts) < m"
      unfolding ser j m using tne by (simp_all add: Suc_le_eq)
    from pt[OF b(1) lt] have 1: "parse_value m (pad @ t @ ?R) = Parsed (x, ?R)" .
    have 2: "skip_ws ?R = ?R"
      using blank_skip[of "[]" "CHR '',''"] by (simp add: blank_def isJSONWhiteSpace_def)
    from pe[OF False b(2) b(2) b(3) lj]
    have 3: "parse_elements m (sepws @ join ?sep ?parts @ tail @ CHR '']'' # rest) = Parsed (xs, rest)" .
    have "parse_elements (Suc m) (pad @ t @ ?R) = Parsed (x # xs, rest)"
      by (simp add: 1 2 3 del: join.simps)
    then show ?thesis unfolding ser j m by simp
  qed
qed

lemma reads_members_Nil: "reads_members rt gap []"
  by (simp add: reads_members_def)

lemma reads_members_Cons:
  assumes gap: "blank gap" and v: "reads_value rt gap v" and props: "reads_members rt gap props"
  shows "reads_members rt gap ((k, v) # props)"
  unfolding reads_members_def
proof (intro allI impI conjI)
  fix ind assume ind: "blank ind"
  from v ind obtain t where t: "SerializeJSONProperty rt gap ind v = Some t" and ot: "opens_value t"
    and pt: "\<And>n pad rest. blank pad \<Longrightarrow> length t \<le> n \<Longrightarrow>
               parse_value n (pad @ t @ rest) = Parsed (v, rest)"
    unfolding reads_value_def by blast
  let ?parts = "SerializeJSONObject rt gap ind props"
  from props ind have len: "length ?parts = length props" and op: "list_all opens_value ?parts"
    and pe: "\<And>n pad sepws tail rest. props \<noteq> [] \<Longrightarrow> blank pad \<Longrightarrow> blank sepws \<Longrightarrow> blank tail \<Longrightarrow>
           length (join (CHR '','' # sepws) ?parts) < n \<Longrightarrow>
           parse_members n (pad @ join (CHR '','' # sepws) ?parts @ tail @ CHR ''}'' # rest) =
           Parsed (props, rest)"
    unfolding reads_members_def by blast+
  define cws where "cws = (if gap = [] then [] else '' '')"
  have cws: "blank cws" by (simp add: cws_def blank_def isJSONWhiteSpace_def)
  let ?member = "QuoteJSONString k @ CHR '':'' # cws @ t"
  have ser: "SerializeJSONObject rt gap ind ((k, v) # props) = ?member # ?parts"
    using t by (cases "gap = []") (simp_all add: cws_def)
  show "length (SerializeJSONObject rt gap ind ((k, v) # props)) = length ((k, v) # props)"
    unfolding ser by (simp add: len)
  show "list_all opens_value (SerializeJSONObject rt gap ind ((k, v) # props))"
    unfolding ser using op opens_value_QuoteJSONString by simp
  fix n pad sepws tail rest
  assume b: "blank pad" "blank sepws" "blank tail"
    and n: "length (join (CHR '','' # sepws) (SerializeJSONObject rt gap ind ((k, v) # props))) < n"
  let ?sep = "CHR '','' # sepws"
  from n obtain m where m: "n = Suc m" by (cases n) auto
  have key: "parse_members (Suc m) (pad @ ?member @ R) =
             bind_parsed (parse_value m (cws @ t @ R)) (\<lambda>(v, s4).
                  case skip_ws s4 of
                    [] \<Rightarrow> Malformed
                  | c # cs \<Rightarrow>
                      if c = CHR '','' then
                        bind_parsed (parse_members m cs)
                          (\<lambda>(members, rest). Parsed ((k, v) # members, rest))
                      else if c = CHR ''}'' then Parsed ([(k, v)], cs)
                      else Malformed)" for R
  proof -
    let ?body = "concat (map QuoteJSONChar k) @ CHR 0x22 # CHR '':'' # cws @ t @ R"
    have q: "pad @ ?member @ R = pad @ CHR 0x22 # ?body" by (simp add: QuoteJSONString_def)
    have 1: "skip_ws (pad @ CHR 0x22 # ?body) = CHR 0x22 # ?body"
      by (rule blank_skip[OF b(1)]) (simp add: isJSONWhiteSpace_def)
    have 2: "parse_chars ?body = Parsed (k, CHR '':'' # cws @ t @ R)" by (rule parse_chars_quoted)
    have 3: "skip_ws (CHR '':'' # cws @ t @ R) = CHR '':'' # cws @ t @ R"
      using blank_skip[of "[]" "CHR '':''"] by (simp add: blank_def isJSONWhiteSpace_def)
    show ?thesis unfolding q by (simp add: 1 2 3)
  qed
  show "parse_members n
          (pad @ join ?sep (SerializeJSONObject rt gap ind ((k, v) # props)) @ tail @ CHR ''}'' # rest) =
        Parsed ((k, v) # props, rest)"
  proof (cases "props = []")
    case True
    then have j: "join ?sep (?member # ?parts) = ?member" using len by simp
    from n have "length t \<le> m" unfolding ser j m by simp
    from pt[OF cws this]
    have 1: "parse_value m (cws @ t @ tail @ CHR ''}'' # rest) = Parsed (v, tail @ CHR ''}'' # rest)" .
    have 2: "skip_ws (tail @ CHR ''}'' # rest) = CHR ''}'' # rest"
      by (rule blank_skip[OF b(3)]) (simp add: isJSONWhiteSpace_def)
    have "parse_members (Suc m) (pad @ ?member @ tail @ CHR ''}'' # rest) = Parsed ([(k, v)], rest)"
      unfolding key by (simp add: 1 2)
    then show ?thesis unfolding ser j m using True by simp
  next
    case False
    then have ne: "?parts \<noteq> []" using len by auto
    have j: "join ?sep (?member # ?parts) = ?member @ ?sep @ join ?sep ?parts"
      by (rule join_Cons[OF ne])
    let ?R = "CHR '','' # sepws @ join ?sep ?parts @ tail @ CHR ''}'' # rest"
    from n have lt: "length t \<le> m" and lj: "length (join ?sep ?parts) < m"
      unfolding ser j m by simp_all
    from pt[OF cws lt] have 1: "parse_value m (cws @ t @ ?R) = Parsed (v, ?R)" .
    have 2: "skip_ws ?R = ?R"
      using blank_skip[of "[]" "CHR '',''"] by (simp add: blank_def isJSONWhiteSpace_def)
    from pe[OF False b(2) b(2) b(3) lj]
    have 3: "parse_members m (sepws @ join ?sep ?parts @ tail @ CHR ''}'' # rest) = Parsed (props, rest)" .
    have "parse_members (Suc m) (pad @ ?member @ ?R) = Parsed ((k, v) # props, rest)"
      unfolding key by (simp add: 1 2 3 del: join.simps)
    then show ?thesis unfolding ser j m by simp
  qed
qed

lemma wrap_shape:
  assumes "blank gap" "blank ind" "parts \<noteq> []"
  shows "\<exists>pad sepws tail. blank pad \<and> blank sepws \<and> blank tail \<and>
           wrap opening closing gap ind parts =
             opening # pad @ join (CHR '','' # sepws) parts @ tail @ [closing]"
proof (cases "gap = []")
  case True
  have "wrap opening closing gap ind parts = opening # [] @ join (CHR '','' # []) parts @ [] @ [closing]"
    using assms(3) True by (simp add: wrap_def)
  moreover have "blank []" by (simp add: blank_def)
  ultimately show ?thesis by blast
next
  case False
  let ?p = "CHR 0x0A # ind @ gap"
  let ?t = "CHR 0x0A # ind"
  have "wrap opening closing gap ind parts = opening # ?p @ join (CHR '','' # ?p) parts @ ?t @ [closing]"
    using assms(3) False by (simp add: wrap_def)
  moreover have "blank ?p" "blank ?t"
    using assms(1,2) by (simp_all add: blank_def isJSONWhiteSpace_def)
  ultimately show ?thesis by blast
qed

lemma length_wrap:
  assumes "wrap opening closing gap ind parts = opening # pad @ join sep parts @ tail @ [closing]"
  shows "length (join sep parts) < length (wrap opening closing gap ind parts) - 1"
  unfolding assms by simp

lemma reads_value_Arr:
  assumes gap: "blank gap" and xs: "reads_elements rt gap xs"
  shows "reads_value rt gap (Arr xs)"
  unfolding reads_value_def
proof (intro allI impI)
  fix ind assume ind: "blank ind"
  have ig: "blank (ind @ gap)" using ind gap by (simp add: blank_def)
  let ?parts = "SerializeJSONArray rt gap (ind @ gap) xs"
  let ?t = "wrap (CHR ''['') (CHR '']'') gap ind ?parts"
  from xs ig have len: "length ?parts = length xs" and op: "list_all opens_value ?parts"
    and pe: "\<And>n pad sepws tail rest. xs \<noteq> [] \<Longrightarrow> blank pad \<Longrightarrow> blank sepws \<Longrightarrow> blank tail \<Longrightarrow>
           length (join (CHR '','' # sepws) ?parts) < n \<Longrightarrow>
           parse_elements n (pad @ join (CHR '','' # sepws) ?parts @ tail @ CHR '']'' # rest) =
           Parsed (xs, rest)"
    unfolding reads_elements_def by blast+
  have o: "opens_value ?t"
    by (simp add: wrap_def opens_value_def isJSONWhiteSpace_def)
  have p: "parse_value n (pad @ ?t @ rest) = Parsed (Arr xs, rest)"
    if b: "blank pad" and n: "length ?t \<le> n" for n pad rest
  proof (cases "xs = []")
    case True
    then have t: "?t = ''[]''" by (simp add: wrap_def)
    from n obtain m where m: "n = Suc m" unfolding t by (cases n) auto
    have 1: "skip_ws (pad @ CHR ''['' # CHR '']'' # rest) = CHR ''['' # CHR '']'' # rest"
      by (rule blank_skip[OF b]) (simp add: isJSONWhiteSpace_def)
    have 2: "skip_ws (CHR '']'' # rest) = CHR '']'' # rest"
      using blank_skip[of "[]" "CHR '']''"] by (simp add: blank_def isJSONWhiteSpace_def)
    show ?thesis unfolding t m using True by (simp add: 1 2)
  next
    case False
    then have ne: "?parts \<noteq> []" using len by auto
    from wrap_shape[OF gap ind ne, of "CHR ''[''" "CHR '']''"]
    obtain p sepws tail where bl: "blank p" "blank sepws" "blank tail"
      and t: "?t = CHR ''['' # p @ join (CHR '','' # sepws) ?parts @ tail @ [CHR '']'']"
      by blast
    let ?j = "join (CHR '','' # sepws) ?parts"
    let ?cs = "p @ ?j @ tail @ CHR '']'' # rest"
    from n obtain m where m: "n = Suc m" unfolding t by (cases n) auto
    from n have lj: "length ?j < m" unfolding t m by simp
    have 1: "skip_ws (pad @ CHR ''['' # ?cs) = CHR ''['' # ?cs"
      by (rule blank_skip[OF b]) (simp add: isJSONWhiteSpace_def)
    from opens_value_join[OF ne op, of "CHR '','' # sepws" "tail @ CHR '']'' # rest"]
    have oj: "opens_value (?j @ tail @ CHR '']'' # rest)" .
    then obtain c r where cr: "?j @ tail @ CHR '']'' # rest = c # r"
      and c: "\<not> isJSONWhiteSpace c" "c \<noteq> CHR '']''"
      by (cases "?j @ tail @ CHR '']'' # rest") (auto simp add: opens_value_def)
    have 2: "skip_ws ?cs = c # r"
      using blank_skip[OF bl(1) c(1), of r] cr by simp
    from pe[OF False bl lj]
    have 3: "parse_elements m ?cs = Parsed (xs, rest)" .
    have "parse_value (Suc m) (pad @ CHR ''['' # ?cs) = Parsed (Arr xs, rest)"
      by (simp add: 1 2 3 c del: join.simps)
    then show ?thesis unfolding t m by simp
  qed
  show "\<exists>t. SerializeJSONProperty rt gap ind (Arr xs) = Some t \<and> opens_value t \<and>
             (\<forall>n pad rest. blank pad \<longrightarrow> length t \<le> n \<longrightarrow>
                parse_value n (pad @ t @ rest) = Parsed (Arr xs, rest))"
    using o p by simp
qed

lemma CreateDataProperty_new:
  assumes "k \<notin> fst ` set props" "\<not> isArrayIndex k"
  shows "CreateDataProperty props k v = props @ [(k, v)]"
proof -
  from assms(1) have "map_of props k = None" by (simp add: map_of_eq_None_iff)
  with assms(2) show ?thesis by (simp add: CreateDataProperty_def)
qed

lemma object_of_members_new:
  assumes "distinct (map fst (acc @ members))" "\<not> list_ex isArrayIndex (map fst members)"
  shows "object_of_members acc members = acc @ members"
  using assms
proof (induction members arbitrary: acc)
  case Nil then show ?case by simp
next
  case (Cons m members)
  obtain k v where m: "m = (k, v)" by (cases m)
  from Cons.prems have k: "k \<notin> fst ` set acc" "\<not> isArrayIndex k" unfolding m by auto
  have "object_of_members acc (m # members) = object_of_members (acc @ [(k, v)]) members"
    unfolding m by (simp add: CreateDataProperty_new[OF k])
  also have "\<dots> = (acc @ [(k, v)]) @ members"
    using Cons.prems unfolding m by (intro Cons.IH) auto
  finally show ?case unfolding m by simp
qed

lemma reads_value_Obj:
  assumes gap: "blank gap" and props: "reads_members rt gap props"
    and keys: "distinct (map fst props)" "\<not> list_ex isArrayIndex (map fst props)"
  shows "reads_value rt gap (Obj props)"
  unfolding reads_value_def
proof (intro allI impI)
  fix ind assume ind: "blank ind"
  have ig: "blank (ind @ gap)" using ind gap by (simp add: blank_def)
  let ?parts = "SerializeJSONObject rt gap (ind @ gap) props"
  let ?t = "wrap (CHR ''{'') (CHR ''}'') gap ind ?parts"
  from props ig have len: "length ?parts = length props" and op: "list_all opens_value ?parts"
    and pe: "\<And>n pad sepws tail rest. props \<noteq> [] \<Longrightarrow> blank pad \<Longrightarrow> blank sepws \<Longrightarrow> blank tail \<Longrightarrow>
           length (join (CHR '','' # sepws) ?parts) < n \<Longrightarrow>
           parse_members n (pad @ join (CHR '','' # sepws) ?parts @ tail @ CHR ''}'' # rest) =
           Parsed (props, rest)"
    unfolding reads_members_def by blast+
  have om: "object_of_members [] props = props"
    using object_of_members_new[of "[]" props] keys by simp
  have o: "opens_value ?t"
    by (simp add: wrap_def opens_value_def isJSONWhiteSpace_def)
  have p: "parse_value n (pad @ ?t @ rest) = Parsed (Obj props, rest)"
    if b: "blank pad" and n: "length ?t \<le> n" for n pad rest
  proof (cases "props = []")
    case True
    then have t: "?t = ''{}''" by (simp add: wrap_def)
    from n obtain m where m: "n = Suc m" unfolding t by (cases n) auto
    have 1: "skip_ws (pad @ CHR ''{'' # CHR ''}'' # rest) = CHR ''{'' # CHR ''}'' # rest"
      by (rule blank_skip[OF b]) (simp add: isJSONWhiteSpace_def)
    have 2: "skip_ws (CHR ''}'' # rest) = CHR ''}'' # rest"
      using blank_skip[of "[]" "CHR ''}''"] by (simp add: blank_def isJSONWhiteSpace_def)
    show ?thesis unfolding t m using True by (simp add: 1 2)
  next
    case False
    then have ne: "?parts \<noteq> []" using len by auto
    from wrap_shape[OF gap ind ne, of "CHR ''{''" "CHR ''}''"]
    obtain p sepws tail where bl: "blank p" "blank sepws" "blank tail"
      and t: "?t = CHR ''{'' # p @ join (CHR '','' # sepws) ?parts @ tail @ [CHR ''}'']"
      by blast
    let ?j = "join (CHR '','' # sepws) ?parts"
    let ?cs = "p @ ?j @ tail @ CHR ''}'' # rest"
    from n obtain m where m: "n = Suc m" unfolding t by (cases n) auto
    from n have lj: "length ?j < m" unfolding t m by simp
    have 1: "skip_ws (pad @ CHR ''{'' # ?cs) = CHR ''{'' # ?cs"
      by (rule blank_skip[OF b]) (simp add: isJSONWhiteSpace_def)
    from opens_value_join[OF ne op, of "CHR '','' # sepws" "tail @ CHR ''}'' # rest"]
    have oj: "opens_value (?j @ tail @ CHR ''}'' # rest)" .
    then obtain c r where cr: "?j @ tail @ CHR ''}'' # rest = c # r"
      and c: "\<not> isJSONWhiteSpace c" "c \<noteq> CHR ''}''"
      by (cases "?j @ tail @ CHR ''}'' # rest") (auto simp add: opens_value_def)
    have 2: "skip_ws ?cs = c # r"
      using blank_skip[OF bl(1) c(1), of r] cr by simp
    from pe[OF False bl lj]
    have 3: "parse_members m ?cs = Parsed (props, rest)" .
    have "parse_value (Suc m) (pad @ CHR ''{'' # ?cs) = Parsed (Obj props, rest)"
      by (simp add: 1 2 3 c om del: join.simps)
    then show ?thesis unfolding t m by simp
  qed
  show "\<exists>t. SerializeJSONProperty rt gap ind (Obj props) = Some t \<and> opens_value t \<and>
             (\<forall>n pad rest. blank pad \<longrightarrow> length t \<le> n \<longrightarrow>
                parse_value n (pad @ t @ rest) = Parsed (Obj props, rest))"
    using o p by simp
qed

lemma plain_reads:
  assumes gap: "blank gap"
  shows "plain v \<Longrightarrow> reads_value rt gap v"
    and "plain_list xs \<Longrightarrow> reads_elements rt gap xs"
    and "plain_props props \<Longrightarrow> reads_members rt gap props"
proof (induction v and xs and props rule: plain_plain_list_plain_props.induct)
  case (7 props)
  then show ?case using reads_value_Obj[OF gap] by simp
qed (simp_all add: reads_value_Null reads_value_Bool reads_value_Str reads_value_Arr[OF gap]
      reads_elements_Nil reads_elements_Cons reads_members_Nil reads_members_Cons[OF gap])

lemma JSON_parse_stringify:
  assumes "plain v"
  shows "\<exists>text. JSON_stringify rt v space = Some text \<and> JSON_parse text = Parsed v"
proof -
  let ?gap = "replicate (min space 10) (CHR '' '')"
  have g: "blank ?gap" by (simp add: blank_def isJSONWhiteSpace_def list_all_iff)
  have i: "blank []" by (simp add: blank_def)
  from plain_reads(1)[OF g assms, of rt] i
  obtain t where t: "SerializeJSONProperty rt ?gap [] v = Some t"
    and p: "\<And>n pad rest. blank pad \<Longrightarrow> length t \<le> n \<Longrightarrow> parse_value n (pad @ t @ rest) = Parsed (v, rest)"
    unfolding reads_value_def by blast
  have "parse_value (2 * length t + 2) ([] @ t @ []) = Parsed (v, [])"
    by (rule p[OF i]) simp
  then have "JSON_parse t = Parsed v" by (simp add: JSON_parse_def skip_ws_def)
  with t show ?thesis by (simp add: JSON_stringify_def)
qed

subsection \<open>Export and import\<close>

lemma SerializeJSONProperty_None:
  "(SerializeJSONProperty rt gap ind v = None) = (v = Undefined)"
  by (cases v) simp_all

lemma SerializeJSONObject_defined:
  "SerializeJSONObject rt gap ind (filter (\<lambda>(p, v). v \<noteq> Undefined) props) =
   SerializeJSONObject rt gap ind props"
proof (induction props)
  case Nil then show ?case by simp
next
  case (Cons m props)
  obtain k v where m: "m = (k, v)" by (cases m)
  show ?case
  proof (cases "v = Undefined")
    case True then show ?thesis unfolding m using Cons by simp
  next
    case False
    then obtain t where "SerializeJSONProperty rt gap ind v = Some t"
      using SerializeJSONProperty_None[of rt gap ind v] by (cases "SerializeJSONProperty rt gap ind v") auto
    with False show ?thesis unfolding m using Cons by (cases "gap = []") simp_all
  qed
qed

lemma Serialize_stored_object:
  "SerializeJSONProperty rt gap ind (stored_object names k) =
   SerializeJSONProperty rt gap ind (object_of_key names k)"
  by (simp add: stored_object_def object_of_key_def SerializeJSONObject_defined)

lemma Serialize_stored_objects:
  "SerializeJSONArray rt gap ind (map (\<lambda>k. stored_object (layout k) k) keys) =
   SerializeJSONArray rt gap ind (map (\<lambda>k. object_of_key (layout k) k) keys)"
  by (induction keys) (simp_all add: Serialize_stored_object)

lemma KEY_PROPERTIES_cases:
  assumes "p \<in> set KEY_PROPERTIES"
  obtains "p = ''id''" | "p = ''name''" | "p = ''value''" | "p = ''provider''"
    | "p = ''description''" | "p = ''dateAdded''" | "p = ''lastUsed''"
proof -
  from assms have "p = ''id'' \<or> p = ''name'' \<or> p = ''value'' \<or> p = ''provider'' \<or>
      p = ''description'' \<or> p = ''dateAdded'' \<or> p = ''lastUsed''"
    unfolding KEY_PROPERTIES_def by (simp only: set_simps insert_iff empty_iff simp_thms)
  then show thesis
  proof (elim disjE)
    assume "p = ''id''" then show thesis by (rule that(1))
  next
    assume "p = ''name''" then show thesis by (rule that(2))
  next
    assume "p = ''value''" then show thesis by (rule that(3))
  next
    assume "p = ''provider''" then show thesis by (rule that(4))
  next
    assume "p = ''description''" then show thesis by (rule that(5))
  next
    assume "p = ''dateAdded''" then show thesis by (rule that(6))
  next
    assume "p = ''lastUsed''" then show thesis by (rule that(7))
  qed
qed

lemma property_simps:
  "property k ''id'' = id' k" "property k ''name'' = name k" "property k ''value'' = value' k"
  "property k ''provider'' = provider k" "property k ''description'' = description k"
  "property k ''dateAdded'' = dateAdded k" "property k ''lastUsed'' = lastUsed k"
  by (simp_all add: property_def)

lemma key_property_no_index:
  assumes "p \<in> set KEY_PROPERTIES"
  shows "\<not> isArrayIndex p"
  using assms by (rule KEY_PROPERTIES_cases) (simp_all add: isArrayIndex_def isDigit_def)

lemma exportable_property:
  assumes "exportable k" "p \<in> set KEY_PROPERTIES"
  shows "property k p = Undefined \<or> is_string (property k p)"
proof -
  have s: "is_nonempty_string v \<Longrightarrow> is_string v" for v by (cases v) simp_all
  from assms(1) have "is_string (id' k)" "is_string (name k)" "is_string (value' k)"
    "is_string (provider k)" "is_string (description k)" "is_string (dateAdded k)"
    "lastUsed k = Undefined \<or> is_string (lastUsed k)"
    unfolding exportable_def by (simp_all add: s)
  with assms(2) show ?thesis
    by (elim KEY_PROPERTIES_cases) (simp_all only: property_simps simp_thms)
qed

lemma stored_props_plain:
  assumes "exportable k" "set names \<subseteq> set KEY_PROPERTIES"
  shows "plain_props (filter (\<lambda>(p, v). v \<noteq> Undefined) (map (\<lambda>p. (p, property k p)) names))"
  using assms(2)
proof (induction names)
  case Nil then show ?case by simp
next
  case (Cons p names)
  then have "p \<in> set KEY_PROPERTIES" by simp
  from exportable_property[OF assms(1) this] Cons show ?case
    by (cases "property k p") auto
qed

lemma stored_props_keys:
  "map fst (filter (\<lambda>(p, v). v \<noteq> Undefined) (map (\<lambda>p. (p, f p)) names)) =
   filter (\<lambda>p. f p \<noteq> Undefined) names"
  by (induction names) simp_all

lemma stored_props_map_of:
  "map_of (filter (\<lambda>(p, v). v \<noteq> Undefined) (map (\<lambda>p. (p, f p)) names)) q =
     (if q \<in> set names \<and> f q \<noteq> Undefined then Some (f q) else None)"
  by (induction names) auto

lemma field_stored_object:
  assumes "p \<in> set names"
  shows "field (stored_object names k) p = property k p"
  using assms by (simp add: stored_object_def stored_props_map_of)

lemma plain_stored_object:
  assumes "exportable k" "laid_out names"
  shows "plain (stored_object names k)"
proof -
  from assms(2) have d: "distinct names" and s: "set names \<subseteq> set KEY_PROPERTIES"
    by (simp_all add: laid_out_def)
  have "\<not> list_ex isArrayIndex (filter (\<lambda>p. property k p \<noteq> Undefined) names)"
    using s key_property_no_index by (auto simp add: list_ex_iff)
  with d stored_props_plain[OF assms(1) s] show ?thesis
    by (simp add: stored_object_def stored_props_keys)
qed

lemma is_nonempty_stringE:
  assumes "is_nonempty_string v"
  obtains s where "v = Str s" "s \<noteq> []"
  using assms by (cases v) auto

lemma is_stringE:
  assumes "is_string v"
  obtains s where "v = Str s"
  using assms by (cases v) auto

lemma array_item_stored_object:
  assumes "exportable k" "laid_out names"
  shows "array_item rt (stored_object names k) e = (Inr (Some k), e)"
proof -
  from assms(1) obtain i n v p d t where f: "id' k = Str i" "i \<noteq> []" "name k = Str n" "n \<noteq> []"
    "value' k = Str v" "v \<noteq> []" "provider k = Str p" "p \<noteq> []" "description k = Str d"
    "dateAdded k = Str t" "t \<noteq> []"
    unfolding exportable_def
    by (elim conjE is_nonempty_stringE is_stringE) blast
  let ?o = "stored_object names k"
  from assms(2) have "set names = set KEY_PROPERTIES" by (simp add: laid_out_def)
  then have "''id'' \<in> set names" "''name'' \<in> set names" "''value'' \<in> set names"
    "''provider'' \<in> set names" "''description'' \<in> set names" "''dateAdded'' \<in> set names"
    "''lastUsed'' \<in> set names"
    by (simp_all add: KEY_PROPERTIES_def)
  then have fs: "field ?o ''id'' = Str i" "field ?o ''name'' = Str n" "field ?o ''value'' = Str v"
    "field ?o ''provider'' = Str p" "field ?o ''description'' = Str d"
    "field ?o ''dateAdded'' = Str t" "field ?o ''lastUsed'' = lastUsed k"
    by (simp_all add: field_stored_object property_simps f)
  have o: "?o \<noteq> Null" "typeof_is_object ?o" by (simp_all add: stored_object_def)
  have k: "k = \<lparr> id' = Str i, name = Str n, value' = Str v, provider = Str p,
                description = Str d, dateAdded = Str t, lastUsed = lastUsed k \<rparr>"
    using f by (cases k) simp
  have "key_of_item rt ?o e = (Inr k, e)"
    apply (subst (2) k)
    using f by (simp add: key_of_item_def fs)
  then show ?thesis using o f by (simp add: array_item_def fs)
qed

lemma exportable_array:
  assumes "list_all (\<lambda>k. exportable k \<and> laid_out (layout k)) keys"
  shows "plain_list (map (\<lambda>k. stored_object (layout k) k) keys)"
    and "array_items rt (map (\<lambda>k. stored_object (layout k) k) keys) e = (Inr keys, e)"
  using assms by (induction keys) (simp_all add: plain_stored_object array_item_stored_object)

text \<open>
  C6, as the code has it. For every record set whose records are typed as the interface says
  and have a non-empty \<^verbatim>\<open>id\<close>, \<^verbatim>\<open>name\<close>, \<^verbatim>\<open>value\<close>, \<^verbatim>\<open>provider\<close> and \<^verbatim>\<open>dateAdded\<close>,
  whatever the order of the properties of each object, the text of the \<^verbatim>\<open>.json\<close> export,
  read by the JSON adapter, gives the same records, each with its \<^verbatim>\<open>id\<close>; the import
  neither draws an identifier nor writes to the console.
\<close>

theorem export_import_json:
  assumes "list_all (\<lambda>k. exportable k \<and> laid_out (layout k)) keys"
  shows "\<exists>text. formatApiKeysForExport rt layout keys ''.json'' = Inr text \<and>
                extractKeysFromFile rt text ''.json'' e = Some (keys, e)"
proof -
  let ?stored = "Arr (map (\<lambda>k. stored_object (layout k) k) keys)"
  have "plain ?stored" using exportable_array(1)[OF assms] by simp
  from JSON_parse_stringify[OF this, of rt 2]
  obtain exported where s: "JSON_stringify rt ?stored 2 = Some exported"
    and p: "JSON_parse exported = Parsed ?stored"
    by blast
  have "JSON_stringify rt (Arr (map (\<lambda>k. object_of_key (layout k) k) keys)) 2 =
        JSON_stringify rt ?stored 2"
    by (simp add: JSON_stringify_def Serialize_stored_objects)
  with s have f: "formatApiKeysForExport rt layout keys ''.json'' = Inr exported"
    by (simp add: formatApiKeysForExport_def)
  have "extractKeysFromFile rt exported ''.json'' e = Some (keys, e)"
    using p exportable_array(2)[OF assms, of rt e]
    by (simp add: extractKeysFromFile_def json_keys_def catch_json_def)
  with f show ?thesis by blast
qed

theorem export_import_json_witness:
  "\<exists>text. formatApiKeysForExport example_runtime
       (\<lambda>k. [''id'', ''name'', ''value'', ''provider'', ''dateAdded'', ''description'', ''lastUsed''])
       [\<lparr> id' = Str ''7f3c'', name = Str ''OPENAI_API_KEY'', value' = Str ''sk-1'',
          provider = Str ''OpenAI'', description = Str [], dateAdded = Str ''2025-01-01'',
          lastUsed = Undefined \<rparr>] ''.json'' = Inr text \<and>
     extractKeysFromFile example_runtime text ''.json'' no_effects =
       Some ([\<lparr> id' = Str ''7f3c'', name = Str ''OPENAI_API_KEY'', value' = Str ''sk-1'',
          provider = Str ''OpenAI'', description = Str [], dateAdded = Str ''2025-01-01'',
          lastUsed = Undefined \<rparr>], no_effects)"
  by (rule export_import_json) (auto simp add: exportable_def laid_out_def KEY_PROPERTIES_def)

text \<open>
  The claim as written fails on a record whose value is empty (such as the CSV adapter
  emits): the JSON array adapter drops it on the way back.
\<close>

theorem export_import_json_counterexample:
  "(case formatApiKeysForExport example_runtime (\<lambda>k. KEY_PROPERTIES)
       [\<lparr> id' = Str ''7f3c'', name = Str ''K'', value' = Str [],
          provider = Str ''Other'', description = Str [], dateAdded = Str ''2025-01-01'',
          lastUsed = Undefined \<rparr>] ''.json'' of
     Inl err \<Rightarrow> None
   | Inr text \<Rightarrow> extractKeysFromFile example_runtime text ''.json'' no_effects) =
   Some ([], no_effects)"
  by code_simp


end
